theory Spec2Isabelle
  imports Complex_Main
begin

section \<open>Errors\<close>

text \<open>
  The exceptions raised in \<^verbatim>\<open>finite_dimensional_algebras_with_basis.py\<close>, each carrying its
  message. A method that may raise returns \<open>error + 'a\<close>, with \<open>Inl\<close> for the exception.
\<close>

datatype error =
    ValueError string
  | NotImplementedError string
  | TypeError string
  | ZeroDivisionError string
  | IndexError string

section \<open>Elements of an algebra\<close>

text \<open>
  The methods of \<^verbatim>\<open>ParentMethods\<close> are generic over the parent: they only use the unit,
  the zero, sums, differences and products of elements, and equality. A parent of the category
  is therefore a type of sort \<open>{ring, monoid_mult}\<close>: the category asserts associativity,
  distributivity and the unit laws without checking them, as the sort does. The sort does not
  ask for \<open>0 \<noteq> 1\<close>, so the zero algebra is a parent too.
\<close>

text \<open>
  \<^verbatim>\<open>self.sum(l)\<close> is Python's \<^verbatim>\<open>sum(l, self.zero())\<close>: a left fold from the zero.
\<close>

definition alg_sum :: "'a::{ring,monoid_mult} list \<Rightarrow> 'a" where
  "alg_sum l = foldl (+) 0 l"

text \<open>
  \<^verbatim>\<open>
  return (self.sum(l) == self.one()
          and all(e*e == e for e in l)
          and all(e*f == 0 and f*e == 0 for i, e in enumerate(l)
                                        for f in l[:i]))
  \<close>
\<close>

definition is_identity_decomposition_into_orthogonal_idempotents ::
    "'a::{ring,monoid_mult} list \<Rightarrow> bool" where
  "is_identity_decomposition_into_orthogonal_idempotents l \<longleftrightarrow>
     alg_sum l = 1 \<and>
     list_all (\<lambda>e. e * e = e) l \<and>
     list_all (\<lambda>(e, f). e * f = 0 \<and> f * e = 0)
       (concat (map (\<lambda>(i, e). map (\<lambda>f. (e, f)) (take i l)) (enumerate 0 l)))"

section \<open>The path algebra of the Kronecker quiver\<close>

text \<open>
  The example algebra of the docstrings, \<^verbatim>\<open>Algebras(QQ).FiniteDimensional().WithBasis().example()\<close>:
  basis \<open>x, y, a, b\<close> over the rationals with \<open>x*x = x\<close>, \<open>y*y = y\<close>, \<open>x*a = a\<close>, \<open>a*y = a\<close>,
  \<open>x*b = b\<close>, \<open>b*y = b\<close> and every other product of basis elements zero; the unit is \<open>x + y\<close>.
  An element is its four coefficients.
\<close>

datatype kron = Kron (cx: rat) (cy: rat) (ca: rat) (cb: rat)

instantiation kron :: "{ring, monoid_mult}"
begin

definition zero_kron :: kron where
  "zero_kron = Kron 0 0 0 0"

definition one_kron :: kron where
  "one_kron = Kron 1 1 0 0"

definition plus_kron :: "kron \<Rightarrow> kron \<Rightarrow> kron" where
  "plus_kron u v = Kron (cx u + cx v) (cy u + cy v) (ca u + ca v) (cb u + cb v)"

definition uminus_kron :: "kron \<Rightarrow> kron" where
  "uminus_kron u = Kron (- cx u) (- cy u) (- ca u) (- cb u)"

definition minus_kron :: "kron \<Rightarrow> kron \<Rightarrow> kron" where
  "minus_kron u v = Kron (cx u - cx v) (cy u - cy v) (ca u - ca v) (cb u - cb v)"

definition times_kron :: "kron \<Rightarrow> kron \<Rightarrow> kron" where
  "times_kron u v =
     Kron (cx u * cx v) (cy u * cy v) (cx u * ca v + ca u * cy v) (cx u * cb v + cb u * cy v)"

instance
  by standard
    (simp_all add: zero_kron_def one_kron_def plus_kron_def uminus_kron_def minus_kron_def
      times_kron_def algebra_simps)

end

definition kx :: kron where "kx = Kron 1 0 0 0"
definition ky :: kron where "ky = Kron 0 1 0 0"
definition ka :: kron where "ka = Kron 0 0 1 0"
definition kb :: kron where "kb = Kron 0 0 0 1"

section \<open>The zero algebra\<close>

datatype triv = Triv

instantiation triv :: "{ring, monoid_mult}"
begin

definition zero_triv :: triv where "zero_triv = Triv"
definition one_triv :: triv where "one_triv = Triv"
definition plus_triv :: "triv \<Rightarrow> triv \<Rightarrow> triv" where "plus_triv u v = Triv"
definition uminus_triv :: "triv \<Rightarrow> triv" where "uminus_triv u = Triv"
definition minus_triv :: "triv \<Rightarrow> triv \<Rightarrow> triv" where "minus_triv u v = Triv"
definition times_triv :: "triv \<Rightarrow> triv \<Rightarrow> triv" where "times_triv u v = Triv"

instance
  by standard (metis triv.exhaust)+

end

section \<open>The semisimple quotient\<close>

text \<open>
  \<^verbatim>\<open>semisimple_quotient()\<close> builds the quotient of the algebra by its radical with
  \<^verbatim>\<open>quotient_module\<close>, which is not part of this file. The methods below use four things
  of it: \<^verbatim>\<open>retract\<close>, \<^verbatim>\<open>lift\<close>, \<^verbatim>\<open>central_orthogonal_idempotents()\<close>
  and the printing of its elements in an error message. They are the fields of a record; the
  quotient's elements are a second type of the same sort.
\<close>

record ('a, 'q) semisimple_quotient =
  retract :: "'a \<Rightarrow> 'q"
  lift :: "'q \<Rightarrow> 'a"
  central_orthogonal_idempotents :: "'q list"
  repr :: "'q \<Rightarrow> string"

text \<open>
  Modelled from the spec: the semisimple quotient is the algebra modulo its Jacobson radical,
  the largest nilpotent two-sided ideal, and \<^verbatim>\<open>retract\<close> is the projection onto it. So
  \<^verbatim>\<open>retract\<close> preserves the unit, sums and products, and every element it sends to zero
  is nilpotent. (The kernel is the span of \<^verbatim>\<open>radical_basis()\<close>; that this span is the
  radical is taken from the references the docstring cites.)
\<close>

definition algebra_morphism ::
    "('a::{ring,monoid_mult} \<Rightarrow> 'q::{ring,monoid_mult}) \<Rightarrow> bool" where
  "algebra_morphism h \<longleftrightarrow>
     h 1 = 1 \<and> (\<forall>u v. h (u + v) = h u + h v) \<and> (\<forall>u v. h (u * v) = h u * h v)"

definition nil_kernel ::
    "('a::{ring,monoid_mult} \<Rightarrow> 'q::{ring,monoid_mult}) \<Rightarrow> bool" where
  "nil_kernel h \<longleftrightarrow> (\<forall>z. h z = 0 \<longrightarrow> (\<exists>k. z ^ k = 0))"

section \<open>Idempotent lifting\<close>

text \<open>
  The argument of \<^verbatim>\<open>idempotent_lift\<close> is an element of the algebra or an element of the
  quotient; \<^verbatim>\<open>if not self.is_parent_of(x): x = x.lift()\<close> brings the second into the algebra.
\<close>

datatype ('a, 'q) element = Ambient 'a | Quotient 'q

definition to_ambient :: "('a, 'q) semisimple_quotient \<Rightarrow> ('a, 'q) element \<Rightarrow> 'a" where
  "to_ambient S arg = (case arg of Ambient x \<Rightarrow> x | Quotient q \<Rightarrow> lift S q)"

text \<open>The body of the loop: \<^verbatim>\<open>x = (one - (one - x**2)**2)\<close>.\<close>

definition lift_step :: "'a::{ring,monoid_mult} \<Rightarrow> 'a" where
  "lift_step x = 1 - (1 - x ^ 2) ^ 2"

text \<open>
  \<^verbatim>\<open>
  x_prev = None
  while x != x_prev:
      tmp = x
      x = (one - (one - x**2)**2)
      x_prev = tmp
  return x
  \<close>
  The loop need not stop, so it is a partial function: \<open>None\<close> is the run that never returns.
\<close>

partial_function (option) idempotent_lift_loop ::
    "'a::{ring,monoid_mult} \<Rightarrow> 'a option \<Rightarrow> 'a option" where
  "idempotent_lift_loop x x_prev =
     (if Some x \<noteq> x_prev then idempotent_lift_loop (lift_step x) (Some x) else Some x)"

text \<open>
  \<^verbatim>\<open>
  p = self.semisimple_quotient().retract(x)
  if p * p != p:
      raise ValueError("%s does not retract to an idempotent."%p)
  \<close>
\<close>

definition idempotent_lift ::
    "('a::{ring,monoid_mult}, 'q::{ring,monoid_mult}) semisimple_quotient \<Rightarrow>
     ('a, 'q) element \<Rightarrow> (error + 'a) option" where
  "idempotent_lift S arg =
     (let x = to_ambient S arg;
          p = retract S x
      in if p * p \<noteq> p
         then Some (Inl (ValueError (repr S p @ '' does not retract to an idempotent.'')))
         else map_option Inr (idempotent_lift_loop x None))"

section \<open>Orthogonal idempotents, central modulo the radical\<close>

text \<open>
  \<^verbatim>\<open>
  one = self.one()
  idempotents = []
  f = self.zero()
  for g in self.semisimple_quotient().central_orthogonal_idempotents():
      fi = self.idempotent_lift((one - f) * g.lift() * (one - f))
      idempotents.append(fi)
      f = f + fi
  return tuple(idempotents)
  \<close>
  The state of the loop is the pair of \<^verbatim>\<open>idempotents\<close> and \<^verbatim>\<open>f\<close>. An exception of
  \<^verbatim>\<open>idempotent_lift\<close> ends the loop, and so does a lift that never returns.
\<close>

fun orthogonal_idempotents_loop ::
    "('a::{ring,monoid_mult}, 'q::{ring,monoid_mult}) semisimple_quotient \<Rightarrow>
     'q list \<Rightarrow> 'a list \<times> 'a \<Rightarrow> (error + 'a list) option" where
  "orthogonal_idempotents_loop S [] (idempotents, f) = Some (Inr idempotents)"
| "orthogonal_idempotents_loop S (g # gs) (idempotents, f) =
     (case idempotent_lift S (Ambient ((1 - f) * lift S g * (1 - f))) of
        None \<Rightarrow> None
      | Some (Inl err) \<Rightarrow> Some (Inl err)
      | Some (Inr fi) \<Rightarrow> orthogonal_idempotents_loop S gs (idempotents @ [fi], f + fi))"

definition orthogonal_idempotents_central_mod_radical ::
    "('a::{ring,monoid_mult}, 'q::{ring,monoid_mult}) semisimple_quotient \<Rightarrow>
     (error + 'a list) option" where
  "orthogonal_idempotents_central_mod_radical S =
     orthogonal_idempotents_loop S (central_orthogonal_idempotents S) ([], 0)"

section \<open>The semisimple quotient of the Kronecker path algebra\<close>

text \<open>
  The radical of the example algebra has the basis \<open>(a, b)\<close> (the docstring of
  \<^verbatim>\<open>radical_basis\<close>), the quotient has the basis \<open>x, y\<close> with \<open>x*x = x\<close>, \<open>y*y = y\<close> and
  \<open>x*y = y*x = 0\<close>. Its central orthogonal idempotents are \<open>x\<close> and \<open>y\<close>.
\<close>

datatype kquot = KQuot (qx: rat) (qy: rat)

instantiation kquot :: "{ring, monoid_mult}"
begin

definition zero_kquot :: kquot where
  "zero_kquot = KQuot 0 0"

definition one_kquot :: kquot where
  "one_kquot = KQuot 1 1"

definition plus_kquot :: "kquot \<Rightarrow> kquot \<Rightarrow> kquot" where
  "plus_kquot u v = KQuot (qx u + qx v) (qy u + qy v)"

definition uminus_kquot :: "kquot \<Rightarrow> kquot" where
  "uminus_kquot u = KQuot (- qx u) (- qy u)"

definition minus_kquot :: "kquot \<Rightarrow> kquot \<Rightarrow> kquot" where
  "minus_kquot u v = KQuot (qx u - qx v) (qy u - qy v)"

definition times_kquot :: "kquot \<Rightarrow> kquot \<Rightarrow> kquot" where
  "times_kquot u v = KQuot (qx u * qx v) (qy u * qy v)"

instance
  by standard
    (simp_all add: zero_kquot_def one_kquot_def plus_kquot_def uminus_kquot_def minus_kquot_def
      times_kquot_def algebra_simps)

end

text \<open>
  A printing of the elements, for the error messages: the terms with a nonzero coefficient
  joined by \<open>+\<close>, a coefficient one left out. Rationals are printed in lowest terms.
\<close>

function show_nat :: "nat \<Rightarrow> string" where
  "show_nat n =
     (if n < 10 then [char_of (48 + n)]
      else show_nat (n div 10) @ [char_of (48 + n mod 10)])"
  by pat_completeness auto
termination
  by (relation "measure id") auto

definition show_int :: "int \<Rightarrow> string" where
  "show_int i = (if i < 0 then ''-'' @ show_nat (nat (- i)) else show_nat (nat i))"

definition show_rat :: "rat \<Rightarrow> string" where
  "show_rat q =
     (case quotient_of q of (a, b) \<Rightarrow>
        if b = 1 then show_int a else show_int a @ ''/'' @ show_int b)"

definition show_term :: "rat \<Rightarrow> string \<Rightarrow> string list" where
  "show_term c k = (if c = 0 then [] else if c = 1 then [k] else [show_rat c @ ''*'' @ k])"

fun join_terms :: "string list \<Rightarrow> string" where
  "join_terms [] = ''0''"
| "join_terms [s] = s"
| "join_terms (s # t # ts) = s @ '' + '' @ join_terms (t # ts)"

definition kquot_repr :: "kquot \<Rightarrow> string" where
  "kquot_repr p = join_terms (show_term (qx p) ''B[x]'' @ show_term (qy p) ''B[y]'')"

definition kron_repr :: "kron \<Rightarrow> string" where
  "kron_repr u =
     join_terms (show_term (cx u) ''x'' @ show_term (cy u) ''y'' @
                 show_term (ca u) ''a'' @ show_term (cb u) ''b'')"

definition kron_quotient :: "(kron, kquot) semisimple_quotient" where
  "kron_quotient =
     \<lparr> retract = (\<lambda>u. KQuot (cx u) (cy u)),
       lift = (\<lambda>p. Kron (qx p) (qy p) 0 0),
       central_orthogonal_idempotents = [KQuot 1 0, KQuot 0 1],
       repr = kquot_repr \<rparr>"

section \<open>The algebra as a vector space with a basis\<close>

text \<open>
  Beyond the ring operations, \<^verbatim>\<open>principal_ideal\<close>, \<^verbatim>\<open>peirce_summand\<close> and
  \<^verbatim>\<open>cartan_invariants_matrix\<close> use the multiplication by scalars of the base field and
  \<^verbatim>\<open>self.basis()\<close>.
\<close>

record ('f, 'a) with_basis =
  smult :: "'f \<Rightarrow> 'a \<Rightarrow> 'a"
  basis :: "'a list"

text \<open>
  Modelled from the spec: an algebra is a finite-dimensional vector space over a field with a
  fixed ordered basis and a bilinear product. The basis is a list without repetition of
  linearly independent elements that span the algebra, and scalars move through products.
\<close>

definition algebra_with_basis ::
    "('f::field, 'a::{ring,monoid_mult}) with_basis \<Rightarrow> bool" where
  "algebra_with_basis M \<longleftrightarrow>
     finite_dimensional_vector_space (smult M) (set (basis M)) \<and>
     distinct (basis M) \<and>
     (\<forall>c u v. smult M c (u * v) = smult M c u * v) \<and>
     (\<forall>c u v. smult M c (u * v) = u * smult M c v)"

text \<open>
  Modelled from the spec: \<^verbatim>\<open>self.submodule(gens)\<close> and the \<^verbatim>\<open>dimension()\<close> of its result
  belong to the modules-with-basis framework, not to this file. A submodule is the subspace
  spanned by its generators, and its dimension is the dimension of that subspace.
\<close>

definition submodule :: "('f::field, 'a::{ring,monoid_mult}) with_basis \<Rightarrow> 'a list \<Rightarrow> 'a set" where
  "submodule M gens = module.span (smult M) (set gens)"

definition dimension :: "('f::field, 'a::{ring,monoid_mult}) with_basis \<Rightarrow> 'a set \<Rightarrow> nat" where
  "dimension M V = vector_space.dim (smult M) V"


text \<open>
  \<^verbatim>\<open>
  B = self.basis()
  phi = self.module_morphism(on_basis=lambda k: ei * B[k] * ej,
                             codomain=self, triangular='lower')
  ideal = phi.matrix(side='right').image()
  return self.submodule([self.from_vector(v) for v in ideal.basis()],
                        already_echelonized=True)
  \<close>
  The rows of \<^verbatim>\<open>phi.matrix(side='right')\<close> are the coordinates of the elements
  \<^verbatim>\<open>ei * B[k] * ej\<close>, its \<^verbatim>\<open>image()\<close> is the space they span, and
  \<^verbatim>\<open>ideal.basis()\<close> is an echelonized basis of that space. The submodule returned is
  therefore the subspace spanned by the elements \<^verbatim>\<open>ei * B[k] * ej\<close>.
\<close>

definition peirce_summand ::
    "('f::field, 'a::{ring,monoid_mult}) with_basis \<Rightarrow> 'a \<Rightarrow> 'a \<Rightarrow> 'a set" where
  "peirce_summand M ei ej = submodule M (map (\<lambda>b. ei * b * ej) (basis M))"

text \<open>
  \<^verbatim>\<open>
  if idempotents is None:
      idempotents = self.orthogonal_idempotents_central_mod_radical()
  if check:
      if not self.is_identity_decomposition_into_orthogonal_idempotents(idempotents):
          raise ValueError("Not a decomposition of the identity into orthogonal idempotents")
  return [[self.peirce_summand(ei, ej) for ej in idempotents]
          for ei in idempotents]
  \<close>
\<close>

definition peirce_decomposition ::
    "('f::field, 'a::{ring,monoid_mult}) with_basis \<Rightarrow>
     ('a, 'q::{ring,monoid_mult}) semisimple_quotient \<Rightarrow>
     'a list option \<Rightarrow> bool \<Rightarrow> (error + 'a set list list) option" where
  "peirce_decomposition M S idempotents check =
     (case (case idempotents of
              None \<Rightarrow> orthogonal_idempotents_central_mod_radical S
            | Some l \<Rightarrow> Some (Inr l)) of
        None \<Rightarrow> None
      | Some (Inl err) \<Rightarrow> Some (Inl err)
      | Some (Inr l) \<Rightarrow>
          if check \<and> \<not> is_identity_decomposition_into_orthogonal_idempotents l
          then Some (Inl (ValueError
                 ''Not a decomposition of the identity into orthogonal idempotents''))
          else Some (Inr (map (\<lambda>ei. map (\<lambda>ej. peirce_summand M ei ej) l) l)))"

text \<open>The example algebra and its quotient as vector spaces over the rationals.\<close>

definition kron_space :: "(rat, kron) with_basis" where
  "kron_space =
     \<lparr> smult = (\<lambda>c u. Kron (c * cx u) (c * cy u) (c * ca u) (c * cb u)),
       basis = [kx, ky, ka, kb] \<rparr>"


section \<open>The Cartan invariants matrix\<close>


definition bind_err :: "error + 'b \<Rightarrow> ('b \<Rightarrow> error + 'c) \<Rightarrow> error + 'c" where
  "bind_err r k = (case r of Inl err \<Rightarrow> Inl err | Inr v \<Rightarrow> k v)"

text \<open>The results of a sequence of computations, up to the first exception.\<close>

fun collect :: "(error + 'b) list \<Rightarrow> error + 'b list" where
  "collect [] = Inr []"
| "collect (r # rs) = bind_err r (\<lambda>v. bind_err (collect rs) (\<lambda>vs. Inr (v # vs)))"






section \<open>Coordinates, the base ring and the matrix library\<close>

text \<open>
  The base ring \<open>R\<close> of the algebra sits in a field (itself when it is a field, its field of
  fractions otherwise): \<^verbatim>\<open>in_base_ring\<close> says which elements of the field belong to \<open>R\<close>.
  \<^verbatim>\<open>ring_order\<close> is \<^verbatim>\<open>F.order()\<close>, with \<open>None\<close> for an infinite ring.
\<close>

record 'f base_ring =
  in_base_ring :: "'f \<Rightarrow> bool"
  is_field :: bool
  characteristic :: nat
  ring_order :: "nat option"

text \<open>
  The parent of the elements: its structure of a vector space with a basis, the coordinates of
  an element on the basis (\<^verbatim>\<open>to_vector\<close>), the index of the basis element that is the unit
  when the algebra defines \<^verbatim>\<open>one_basis()\<close> (\<open>None\<close> when it does not, or when the call
  raises one of the exceptions that \<^verbatim>\<open>__invert__\<close> catches), the printing of an element
  and the base ring. The keys of the basis are the positions \<open>0, \<dots>, n - 1\<close>.
\<close>

record ('f, 'a) algebra_parent =
  space :: "('f, 'a) with_basis"
  to_vector :: "'a \<Rightarrow> 'f list"
  one_basis :: "nat option"
  elem_repr :: "'a \<Rightarrow> string"
  base_ring :: "'f base_ring"

text \<open>\<^verbatim>\<open>from_vector\<close>: the element with the given coordinates.\<close>

definition from_vector :: "('f::field, 'a::{ring,monoid_mult}) with_basis \<Rightarrow> 'f list \<Rightarrow> 'a" where
  "from_vector M v = (\<Sum>(c, b)\<leftarrow>zip v (basis M). smult M c b)"

text \<open>
  Modelled from the spec: an element is a finite mapping from basis keys to coefficients, and
  \<^verbatim>\<open>to_vector\<close>, \<^verbatim>\<open>from_vector\<close> convert between elements and coordinate vectors.
  When the algebra has a \<^verbatim>\<open>one_basis\<close>, it is the key of the basis element that is the
  unit.
\<close>

definition coordinates :: "('f::field, 'a::{ring,monoid_mult}) algebra_parent \<Rightarrow> bool" where
  "coordinates P \<longleftrightarrow>
     (\<forall>x. length (to_vector P x) = length (basis (space P)) \<and>
          from_vector (space P) (to_vector P x) = x) \<and>
     (\<forall>ob. one_basis P = Some ob \<longrightarrow>
          ob < length (basis (space P)) \<and> basis (space P) ! ob = 1)"

text \<open>\<^verbatim>\<open>monomial_coefficients\<close>: the dictionary of the nonzero coefficients.\<close>

definition monomial_coefficients ::
    "('f::field, 'a::{ring,monoid_mult}) algebra_parent \<Rightarrow> 'a \<Rightarrow> (nat \<times> 'f) list" where
  "monomial_coefficients P x = filter (\<lambda>(k, c). c \<noteq> 0) (enumerate 0 (to_vector P x))"

text \<open>
  \<^verbatim>\<open>to_matrix()\<close> with its default arguments: the matrix of \<open>y \<mapsto> x * y\<close> on the basis,
  whose column \<open>j\<close> holds the coordinates of \<open>x * basis[j]\<close>.
  \<^verbatim>\<open>on_left_matrix = to_matrix\<close>.
\<close>

definition to_matrix ::
    "('f::field, 'a::{ring,monoid_mult}) algebra_parent \<Rightarrow> 'a \<Rightarrow> 'f list list" where
  "to_matrix P x =
     map (\<lambda>i. map (\<lambda>b. to_vector P (x * b) ! i) (basis (space P)))
       [0..<length (basis (space P))]"

text \<open>The product of a matrix and a column vector.\<close>

definition mat_vec :: "'f::field list list \<Rightarrow> 'f list \<Rightarrow> 'f list" where
  "mat_vec A v = map (\<lambda>row. \<Sum>(a, c)\<leftarrow>zip row v. a * c) A"


section \<open>The inverse of an element\<close>

text \<open>
  \<^verbatim>\<open>
  alg = self.parent()
  R = alg.base_ring()
  ob = None
  try:
      ob = alg.one_basis()
  except (AttributeError, TypeError, ValueError):
      pass
  if ob is not None:
      mc = self.monomial_coefficients(copy=False)
      if len(mc) == 1 and ob in mc:
          try:
              return alg.term(ob, R(~mc[ob]))
          except (ValueError, TypeError):
              raise ValueError("cannot invert self (= %s)" % self)

  e = alg.one().to_vector()
  A = self.to_matrix()
  try:
      inv = A.solve_right(e)
      inv.change_ring(R)
      return alg.from_vector(inv)
  except (ValueError, TypeError):
      raise ValueError("cannot invert self (= %s)" % self)
  \<close>
  \<^verbatim>\<open>~c\<close> is the inverse of \<open>c\<close> in the field that holds \<open>R\<close> and raises a division by
  zero on \<open>0\<close>; \<^verbatim>\<open>R(...)\<close> and \<^verbatim>\<open>change_ring(R)\<close> raise a type error on a value outside
  \<open>R\<close>. Only value errors and type errors are caught.
\<close>

definition cannot_invert :: "('f, 'a) algebra_parent \<Rightarrow> 'a \<Rightarrow> error" where
  "cannot_invert P x = ValueError (''cannot invert self (= '' @ elem_repr P x @ '')'')"

definition invert ::
    "('f::field list list \<Rightarrow> 'f list \<Rightarrow> error + 'f list) \<Rightarrow>
     ('f, 'a::{ring,monoid_mult}) algebra_parent \<Rightarrow> 'a \<Rightarrow> error + 'a" where
  "invert solve_right P x =
     (let R = base_ring P;
          mc = monomial_coefficients P x;
          scalar = (case one_basis P of
                      None \<Rightarrow> None
                    | Some ob \<Rightarrow>
                        if length mc = 1 then map_option (Pair ob) (map_of mc ob) else None)
      in case scalar of
           Some (ob, c) \<Rightarrow>
             if c = 0 then Inl (ZeroDivisionError ''division by zero'')
             else if in_base_ring R (inverse c)
             then Inr (smult (space P) (inverse c) (basis (space P) ! ob))
             else Inl (cannot_invert P x)
         | None \<Rightarrow>
             (case solve_right (to_matrix P x) (to_vector P 1) of
                Inl (ValueError s) \<Rightarrow> Inl (cannot_invert P x)
              | Inl (TypeError s) \<Rightarrow> Inl (cannot_invert P x)
              | Inl err \<Rightarrow> Inl err
              | Inr sol \<Rightarrow>
                  if list_all (in_base_ring R) sol
                  then Inr (from_vector (space P) sol)
                  else Inl (cannot_invert P x)))"



text \<open>The example algebra over the rationals; it does not define \<^verbatim>\<open>one_basis\<close>.\<close>

definition QQ :: "rat base_ring" where
  "QQ = \<lparr> in_base_ring = (\<lambda>q. True), is_field = True, characteristic = 0, ring_order = None \<rparr>"

definition kron_parent :: "(rat, kron) algebra_parent" where
  "kron_parent =
     \<lparr> space = kron_space,
       to_vector = (\<lambda>u. [cx u, cy u, ca u, cb u]),
       one_basis = None,
       elem_repr = kron_repr,
       base_ring = QQ \<rparr>"

text \<open>
  The integers as an algebra of dimension one over themselves, inside the rationals: its unit
  is its basis element.
\<close>

definition ZZ :: "rat base_ring" where
  "ZZ = \<lparr> in_base_ring = (\<lambda>q. snd (quotient_of q) = 1), is_field = False, characteristic = 0,
          ring_order = None \<rparr>"

definition ZZ_parent :: "(rat, rat) algebra_parent" where
  "ZZ_parent =
     \<lparr> space = \<lparr> smult = (\<lambda>c u. c * u), basis = [1] \<rparr>,
       to_vector = (\<lambda>u. [u]),
       one_basis = Some 0,
       elem_repr = show_rat,
       base_ring = ZZ \<rparr>"

section \<open>The radical\<close>

text \<open>
  What \<^verbatim>\<open>radical_basis\<close> asks of the field arithmetic and the matrix library: a basis of a
  left kernel (\<^verbatim>\<open>kernel().basis()\<close>, \<^verbatim>\<open>left_kernel().basis()\<close>), the coefficients of a
  characteristic polynomial (\<^verbatim>\<open>characteristic_polynomial()[k]\<close>) and roots: \<^verbatim>\<open>nth_root\<close>
  when the elements of the field have this method (\<open>None\<close> when they do not) and the power
  \<^verbatim>\<open>x**(1/s)\<close>. A matrix is the list of its rows.
\<close>

record 'f linear_algebra =
  left_kernel_basis :: "'f list list \<Rightarrow> 'f list list"
  characteristic_polynomial :: "'f list list \<Rightarrow> nat \<Rightarrow> 'f"
  nth_root :: "('f \<Rightarrow> nat \<Rightarrow> error + 'f) option"
  rational_power :: "'f \<Rightarrow> nat \<Rightarrow> error + 'f"

text \<open>The arithmetic of matrices: product, multiple, sum and unit.\<close>

definition mat_mul :: "'f::field list list \<Rightarrow> 'f list list \<Rightarrow> 'f list list" where
  "mat_mul A B = map (\<lambda>row. map (\<lambda>col. \<Sum>(a, b)\<leftarrow>zip row col. a * b) (transpose B)) A"

definition mat_scale :: "'f::field \<Rightarrow> 'f list list \<Rightarrow> 'f list list" where
  "mat_scale c A = map (map (\<lambda>a. c * a)) A"

definition mat_add :: "'f::field list list \<Rightarrow> 'f list list \<Rightarrow> 'f list list" where
  "mat_add A B = map2 (map2 (+)) A B"

definition mat_one :: "nat \<Rightarrow> 'f::field list list" where
  "mat_one n = map (\<lambda>i. map (\<lambda>j. if i = j then 1 else 0) [0..<n]) [0..<n]"

text \<open>Python's \<^verbatim>\<open>sum\<close> of square matrices of size \<open>n\<close>: a left fold from zero.\<close>

definition mat_sum :: "nat \<Rightarrow> 'f::field list list list \<Rightarrow> 'f list list" where
  "mat_sum n As = foldl mat_add (replicate n (replicate n 0)) As"

text \<open>
  The branch of characteristic zero:
  \<^verbatim>\<open>
  keys = list(self.basis().keys())
  cache = [{(i,j): c
      for i in keys
      for j,c in product_on_basis(y,i)}
      for y in keys]
  mat = [ [ sum(x.get((j, i), 0) * c for (i,j),c in y.items())
      for x in cache]
      for y in cache]
  mat = matrix(self.base_ring(), mat)
  rad_basis = mat.kernel().basis()
  \<close>
\<close>

definition product_cache ::
    "('f::field, 'a::{ring,monoid_mult}) algebra_parent \<Rightarrow> nat \<Rightarrow> ((nat \<times> nat) \<times> 'f) list" where
  "product_cache P y =
     concat (map (\<lambda>i. map (\<lambda>(j, c). ((i, j), c))
                         (monomial_coefficients P (basis (space P) ! y * basis (space P) ! i)))
                 [0..<length (basis (space P))])"

definition trace_form_matrix ::
    "('f::field, 'a::{ring,monoid_mult}) algebra_parent \<Rightarrow> 'f list list" where
  "trace_form_matrix P =
     (let cache = map (product_cache P) [0..<length (basis (space P))]
      in map (\<lambda>y. map (\<lambda>x. \<Sum>((i, j), c)\<leftarrow>y.
                              (case map_of x (j, i) of None \<Rightarrow> 0 | Some d \<Rightarrow> d) * c)
                       cache)
             cache)"

text \<open>
  The branch of positive characteristic:
  \<^verbatim>\<open>
  if hasattr(self.base_ring().one(), 'nth_root'):
      root_fcn = lambda s, x : x.nth_root(s)
  else:
      root_fcn = lambda s, x : x**(1/s)

  s, n = 1, self.dimension()
  B = [b.on_left_matrix() for b in self.basis()]
  I = B[0].parent().one()
  while s <= n:
      BB = B + [I]
      G = matrix([ [(-1)**s * (b*bb).characteristic_polynomial()[n-s]
                      for bb in BB] for b in B])
      C = G.left_kernel().basis()
      if 1 < s < F.order():
          C = [vector(F, [root_fcn(s, ci) for ci in c]) for c in C]
      B = [ sum(ci*b for (ci,b) in zip(c,B)) for c in C ]
      s = p * s
  e = vector(self.one())
  rad_basis = [b*e for b in B]
  \<close>
  A root that does not exist raises and ends the loop. The loop stops because \<open>s\<close> grows,
  which needs \<open>p > 1\<close>; it is a partial function of the pair \<open>(s, B)\<close>.
\<close>

definition root_fcn :: "'f linear_algebra \<Rightarrow> nat \<Rightarrow> 'f \<Rightarrow> error + 'f" where
  "root_fcn L s x = (case nth_root L of Some r \<Rightarrow> r x s | None \<Rightarrow> rational_power L x s)"

partial_function (option) radical_loop ::
    "'f::field linear_algebra \<Rightarrow> 'f base_ring \<Rightarrow> nat \<Rightarrow> 'f list list \<Rightarrow>
     nat \<Rightarrow> 'f list list list \<Rightarrow> (error + 'f list list list) option" where
  "radical_loop L F n I s B =
     (if s \<le> n then
        (let BB = B @ [I];
             G = map (\<lambda>b. map (\<lambda>bb. (- 1) ^ s *
                     characteristic_polynomial L (mat_mul b bb) (n - s)) BB) B;
             C = left_kernel_basis L G
         in case (if 1 < s \<and> (case ring_order F of None \<Rightarrow> True | Some q \<Rightarrow> s < q)
                  then collect (map (\<lambda>c. collect (map (\<lambda>ci. root_fcn L s ci) c)) C)
                  else Inr C) of
              Inl err \<Rightarrow> Some (Inl err)
            | Inr C' \<Rightarrow>
                radical_loop L F n I (characteristic F * s)
                  (map (\<lambda>c. mat_sum n (map (\<lambda>(ci, b). mat_scale ci b) (zip c B))) C'))
      else Some (Inr B))"

text \<open>
  \<^verbatim>\<open>
  F = self.base_ring()
  if not F.is_field():
      raise NotImplementedError("the base ring must be a field")
  p = F.characteristic()
  ...
  return tuple([self.from_vector(vec) for vec in rad_basis])
  \<close>
  \<^verbatim>\<open>B[0]\<close> raises on an algebra of dimension zero.
\<close>

definition radical_basis ::
    "'f::field linear_algebra \<Rightarrow> ('f, 'a::{ring,monoid_mult}) algebra_parent \<Rightarrow>
     (error + 'a list) option" where
  "radical_basis L P =
     (let F = base_ring P in
      if \<not> is_field F then Some (Inl (NotImplementedError ''the base ring must be a field''))
      else
        let p = characteristic F in
        if p = 0 then
          Some (Inr (map (from_vector (space P)) (left_kernel_basis L (trace_form_matrix P))))
        else
          let n = length (basis (space P));
              B = map (to_matrix P) (basis (space P))
          in case B of
               [] \<Rightarrow> Some (Inl (IndexError ''list index out of range''))
             | _ # _ \<Rightarrow>
                 (case radical_loop L F n (mat_one n) 1 B of
                    None \<Rightarrow> None
                  | Some (Inl err) \<Rightarrow> Some (Inl err)
                  | Some (Inr B') \<Rightarrow>
                      Some (Inr (map (\<lambda>b. from_vector (space P) (mat_vec b (to_vector P 1))) B'))))"

text \<open>
  The characteristic \<open>p\<close> procedure in the words of the specification. A round at \<open>s\<close> forms
  the matrix \<open>G\<close> whose entry in row \<open>b\<close> and column \<open>bb\<close> is \<open>(-1)\<^sup>s\<close> times the coefficient of
  degree \<open>n - s\<close> of the characteristic polynomial of \<open>b * bb\<close>; the rows run over the working
  list \<open>B\<close>, the columns over \<open>B\<close> followed by the identity matrix.
\<close>

definition spec_G ::
    "'f::field linear_algebra \<Rightarrow> nat \<Rightarrow> nat \<Rightarrow> 'f list list list \<Rightarrow> 'f list list" where
  "spec_G L n s B =
     map (\<lambda>b. map (\<lambda>bb. (- 1) ^ s * characteristic_polynomial L (mat_mul b bb) (n - s))
                  (B @ [mat_one n])) B"

text \<open>
  The round takes the left kernel of \<open>G\<close>, applies the \<open>s\<close>-th root to each coordinate of each
  kernel vector exactly when \<open>1 < s < |F|\<close>, and replaces \<open>B\<close> by the linear combinations of
  \<open>B\<close> with the kernel vectors as coefficients.
\<close>

definition spec_round ::
    "'f::field linear_algebra \<Rightarrow> 'f base_ring \<Rightarrow> nat \<Rightarrow> nat \<Rightarrow> 'f list list list \<Rightarrow>
     error + 'f list list list" where
  "spec_round L F n s B =
     bind_err
       (if 1 < s \<and> (case ring_order F of None \<Rightarrow> True | Some q \<Rightarrow> s < q)
        then collect (map (\<lambda>c. collect (map (root_fcn L s) c)) (left_kernel_basis L (spec_G L n s B)))
        else Inr (left_kernel_basis L (spec_G L n s B)))
       (\<lambda>C. Inr (map (\<lambda>c. mat_sum n (map (\<lambda>(ci, b). mat_scale ci b) (zip c B))) C))"

text \<open>The rounds at the values of \<open>s\<close> of a list, in order, up to the first exception.\<close>

primrec spec_rounds ::
    "'f::field linear_algebra \<Rightarrow> 'f base_ring \<Rightarrow> nat \<Rightarrow> nat list \<Rightarrow> 'f list list list \<Rightarrow>
     error + 'f list list list" where
  "spec_rounds L F n [] B = Inr B"
| "spec_rounds L F n (s # ss) B = bind_err (spec_round L F n s B) (spec_rounds L F n ss)"

text \<open>
  \<open>s\<close> starts at \<open>1\<close>, is multiplied by \<open>p\<close> after each round, and the rounds go on while
  \<open>s \<le> n\<close>: \<open>s\<close> takes the values \<open>1, p, p\<^sup>2, \<dots>\<close> that are at most \<open>n\<close>. The radical basis is
  the final \<open>B\<close> applied to the coordinate vector of the unit.
\<close>

definition spec_radical_basis_char_p ::
    "'f::field linear_algebra \<Rightarrow> ('f, 'a::{ring,monoid_mult}) algebra_parent \<Rightarrow>
     error + 'a list" where
  "spec_radical_basis_char_p L P =
     (let n = length (basis (space P));
          p = characteristic (base_ring P)
      in bind_err
           (spec_rounds L (base_ring P) n
              (takeWhile (\<lambda>s. s \<le> n) (map (\<lambda>k. p ^ k) [0..<Suc n]))
              (map (to_matrix P) (basis (space P))))
           (\<lambda>B. Inr (map (\<lambda>b. from_vector (space P) (mat_vec b (to_vector P 1))) B)))"

section \<open>A linear algebra library for the examples\<close>

text \<open>
  The characteristic polynomial by expansion of \<open>det (t - M)\<close> along the first row. A
  polynomial is the list of its coefficients, the constant one first.
\<close>

fun poly_add :: "'f::field list \<Rightarrow> 'f list \<Rightarrow> 'f list" where
  "poly_add [] q = q"
| "poly_add p [] = p"
| "poly_add (a # p) (b # q) = (a + b) # poly_add p q"

fun poly_mul :: "'f::field list \<Rightarrow> 'f list \<Rightarrow> 'f list" where
  "poly_mul [] q = []"
| "poly_mul (a # p) q = poly_add (map (\<lambda>b. a * b) q) (0 # poly_mul p q)"

definition drop_nth :: "nat \<Rightarrow> 'b list \<Rightarrow> 'b list" where
  "drop_nth j xs = take j xs @ drop (Suc j) xs"

function det_poly :: "'f::field list list list \<Rightarrow> 'f list" where
  "det_poly [] = [1]"
| "det_poly (row # rows) =
     foldr poly_add
       (map (\<lambda>j. map (\<lambda>c. (- 1) ^ j * c)
                    (poly_mul (row ! j) (det_poly (map (drop_nth j) rows))))
            [0..<length row])
       []"
  by pat_completeness auto
termination
  by (relation "measure length") auto

definition charpoly :: "'f::field list list \<Rightarrow> nat \<Rightarrow> 'f" where
  "charpoly M k =
     (let n = length M;
          p = det_poly (map (\<lambda>i. map (\<lambda>j. if i = j then [- (M ! i ! j), 1] else [- (M ! i ! j)])
                                     [0..<n]) [0..<n])
      in if k < length p then p ! k else 0)"

text \<open>
  The left kernel by row reduction: the nonzero rows of the reduced echelon form of the
  transposed matrix give one kernel vector for each column without a pivot, and the basis
  returned is the reduced echelon form of these vectors.
\<close>

primrec rref_aux :: "nat list \<Rightarrow> 'f::field list list \<Rightarrow> 'f list list \<Rightarrow> 'f list list" where
  "rref_aux [] piv rest = piv"
| "rref_aux (j # js) piv rest =
     (case find (\<lambda>r. r ! j \<noteq> 0) rest of
        None \<Rightarrow> rref_aux js piv rest
      | Some r \<Rightarrow>
          rref_aux js
            (map (\<lambda>q. map2 (\<lambda>x y. x - q ! j * y) q (map (\<lambda>x. x / r ! j) r)) piv @
               [map (\<lambda>x. x / r ! j) r])
            (map (\<lambda>q. map2 (\<lambda>x y. x - q ! j * y) q (map (\<lambda>x. x / r ! j) r)) (remove1 r rest)))"

definition rref :: "nat \<Rightarrow> 'f::field list list \<Rightarrow> 'f list list" where
  "rref ncols M = rref_aux [0..<ncols] [] M"

definition pivot :: "'f::field list \<Rightarrow> nat" where
  "pivot r = length (takeWhile (\<lambda>x. x = 0) r)"

definition right_kernel :: "nat \<Rightarrow> 'f::field list list \<Rightarrow> 'f list list" where
  "right_kernel ncols M =
     (let R = rref ncols M;
          pivots = map pivot R
      in rref ncols
           (map (\<lambda>f. map (\<lambda>j. if j = f then 1
                               else (case find (\<lambda>(pc, r). pc = j) (zip pivots R) of
                                       None \<Rightarrow> 0
                                     | Some (pc, r) \<Rightarrow> - (r ! f)))
                          [0..<ncols])
                (filter (\<lambda>j. j \<notin> set pivots) [0..<ncols])))"

definition left_kernel :: "'f::field list list \<Rightarrow> 'f list list" where
  "left_kernel G = right_kernel (length G) (transpose G)"

section \<open>The field with two elements and the algebra of the cyclic group of order two\<close>

datatype gf2 = GF2 (odd2: bool)

instantiation gf2 :: field
begin

definition zero_gf2 :: gf2 where
  "zero_gf2 = GF2 False"

definition one_gf2 :: gf2 where
  "one_gf2 = GF2 True"

definition plus_gf2 :: "gf2 \<Rightarrow> gf2 \<Rightarrow> gf2" where
  "plus_gf2 u v = GF2 (odd2 u \<noteq> odd2 v)"

definition uminus_gf2 :: "gf2 \<Rightarrow> gf2" where
  "uminus_gf2 u = u"

definition minus_gf2 :: "gf2 \<Rightarrow> gf2 \<Rightarrow> gf2" where
  "minus_gf2 u v = GF2 (odd2 u \<noteq> odd2 v)"

definition times_gf2 :: "gf2 \<Rightarrow> gf2 \<Rightarrow> gf2" where
  "times_gf2 u v = GF2 (odd2 u \<and> odd2 v)"

definition inverse_gf2 :: "gf2 \<Rightarrow> gf2" where
  "inverse_gf2 u = u"

definition divide_gf2 :: "gf2 \<Rightarrow> gf2 \<Rightarrow> gf2" where
  "divide_gf2 u v = GF2 (odd2 u \<and> odd2 v)"

instance
proof
  fix a :: gf2
  assume "a \<noteq> 0"
  then show "inverse a * a = 1"
    by (cases a) (simp add: zero_gf2_def one_gf2_def times_gf2_def inverse_gf2_def)
qed (auto simp: zero_gf2_def one_gf2_def plus_gf2_def uminus_gf2_def minus_gf2_def
      times_gf2_def inverse_gf2_def divide_gf2_def gf2.expand)

end

text \<open>
  The algebra \<open>K[x] / (x\<^sup>p - 1)\<close> of the docstring of \<^verbatim>\<open>radical_basis\<close>, for the field \<open>K\<close>
  with \<open>p = 2\<close> elements: basis \<open>1, x\<close> with \<open>x * x = 1\<close>.
\<close>

datatype c2alg = C2alg (c2_1: gf2) (c2_x: gf2)

instantiation c2alg :: "{ring, monoid_mult}"
begin

definition zero_c2alg :: c2alg where
  "zero_c2alg = C2alg 0 0"

definition one_c2alg :: c2alg where
  "one_c2alg = C2alg 1 0"

definition plus_c2alg :: "c2alg \<Rightarrow> c2alg \<Rightarrow> c2alg" where
  "plus_c2alg u v = C2alg (c2_1 u + c2_1 v) (c2_x u + c2_x v)"

definition uminus_c2alg :: "c2alg \<Rightarrow> c2alg" where
  "uminus_c2alg u = C2alg (- c2_1 u) (- c2_x u)"

definition minus_c2alg :: "c2alg \<Rightarrow> c2alg \<Rightarrow> c2alg" where
  "minus_c2alg u v = C2alg (c2_1 u - c2_1 v) (c2_x u - c2_x v)"

definition times_c2alg :: "c2alg \<Rightarrow> c2alg \<Rightarrow> c2alg" where
  "times_c2alg u v =
     C2alg (c2_1 u * c2_1 v + c2_x u * c2_x v) (c2_1 u * c2_x v + c2_x u * c2_1 v)"

instance
  by standard
    (simp_all add: zero_c2alg_def one_c2alg_def plus_c2alg_def uminus_c2alg_def
      minus_c2alg_def times_c2alg_def algebra_simps)

end

definition gf2_library :: "gf2 linear_algebra" where
  "gf2_library =
     \<lparr> left_kernel_basis = left_kernel,
       characteristic_polynomial = charpoly,
       nth_root = Some (\<lambda>x s. Inr x),
       rational_power = (\<lambda>x s. Inr x) \<rparr>"

definition GF2_ring :: "gf2 base_ring" where
  "GF2_ring = \<lparr> in_base_ring = (\<lambda>c. True), is_field = True, characteristic = 2,
                ring_order = Some 2 \<rparr>"

definition c2alg_parent :: "(gf2, c2alg) algebra_parent" where
  "c2alg_parent =
     \<lparr> space = \<lparr> smult = (\<lambda>c u. C2alg (c * c2_1 u) (c * c2_x u)),
                 basis = [C2alg 1 0, C2alg 0 1] \<rparr>,
       to_vector = (\<lambda>u. [c2_1 u, c2_x u]),
       one_basis = None,
       elem_repr = (\<lambda>u. join_terms (show_term (if c2_1 u = 0 then 0 else 1) ''B[1]'' @
                                      show_term (if c2_x u = 0 then 0 else 1) ''B[xbar]'')),
       base_ring = GF2_ring \<rparr>"

text \<open>
  A library over the rationals; the \<open>s\<close>-th root of a rational is taken when it is the
  \<open>s\<close>-th power of a rational and raises otherwise.
\<close>

definition rat_nth_root :: "rat \<Rightarrow> nat \<Rightarrow> error + rat" where
  "rat_nth_root q s =
     (case quotient_of q of (a, b) \<Rightarrow>
        (case (find (\<lambda>r. r ^ s = \<bar>a\<bar>) (map int [0..<Suc (nat \<bar>a\<bar>)]),
               find (\<lambda>r. r ^ s = b) (map int [0..<Suc (nat b)])) of
           (Some ra, Some rb) \<Rightarrow>
             if a < 0 \<and> even s then Inl (ValueError ''not a perfect power'')
             else Inr ((if a < 0 then - 1 else 1) * of_int ra / of_int rb)
         | _ \<Rightarrow> Inl (ValueError ''not a perfect power'')))"

definition QQ_library :: "rat linear_algebra" where
  "QQ_library =
     \<lparr> left_kernel_basis = left_kernel,
       characteristic_polynomial = charpoly,
       nth_root = Some rat_nth_root,
       rational_power = rat_nth_root \<rparr>"

text \<open>The zero algebra over the field with two elements: its basis is empty.\<close>

definition zero_parent :: "(gf2, triv) algebra_parent" where
  "zero_parent =
     \<lparr> space = \<lparr> smult = (\<lambda>c u. Triv), basis = [] \<rparr>,
       to_vector = (\<lambda>u. []),
       one_basis = None,
       elem_repr = (\<lambda>u. ''0''),
       base_ring = GF2_ring \<rparr>"

section \<open>The check of a decomposition of the identity\<close>

lemmas kron_defs = zero_kron_def one_kron_def plus_kron_def uminus_kron_def minus_kron_def
  times_kron_def kx_def ky_def ka_def kb_def

lemma triv_eq: "(u::triv) = v"
  by (cases u, cases v) simp

lemma foldl_plus_sum_list:
  fixes a :: "'a::{ring,monoid_mult}"
  shows "foldl (+) a l = a + sum_list l"
  by (induction l arbitrary: a) (simp_all add: add.assoc)

lemma alg_sum_sum_list: "alg_sum l = sum_list l"
  by (simp add: alg_sum_def foldl_plus_sum_list)

lemma ball_enumerate:
  "(\<forall>p\<in>set (enumerate 0 l). Q (fst p) (snd p)) \<longleftrightarrow> (\<forall>i<length l. Q i (l ! i))"
proof
  assume L: "\<forall>p\<in>set (enumerate 0 l). Q (fst p) (snd p)"
  show "\<forall>i<length l. Q i (l ! i)"
  proof (intro allI impI)
    fix i assume "i < length l"
    then have "(i, l ! i) \<in> set (enumerate 0 l)" by (simp add: in_set_enumerate_eq)
    with L show "Q i (l ! i)" by fastforce
  qed
next
  assume "\<forall>i<length l. Q i (l ! i)"
  then show "\<forall>p\<in>set (enumerate 0 l). Q (fst p) (snd p)"
    by (auto simp: in_set_enumerate_eq)
qed

lemma ball_take:
  assumes "i \<le> length l"
  shows "(\<forall>f\<in>set (take i l). R f) \<longleftrightarrow> (\<forall>j<i. R (l ! j))"
proof -
  have "set (take i l) = (!) l ` {0..<i}"
    using assms by (simp add: nth_image)
  then show ?thesis by auto
qed

lemma pairs_below_iff:
  "list_all (\<lambda>(e, f). P e f)
     (concat (map (\<lambda>(i, e). map (\<lambda>f. (e, f)) (take i l)) (enumerate 0 l)))
   \<longleftrightarrow> (\<forall>i<length l. \<forall>j<i. P (l ! i) (l ! j))"
proof -
  have "list_all (\<lambda>(e, f). P e f)
     (concat (map (\<lambda>(i, e). map (\<lambda>f. (e, f)) (take i l)) (enumerate 0 l)))
    \<longleftrightarrow> (\<forall>p\<in>set (enumerate 0 l). \<forall>f\<in>set (take (fst p) l). P (snd p) f)"
    by (auto simp: list_all_iff)
  also have "\<dots> \<longleftrightarrow> (\<forall>i<length l. \<forall>f\<in>set (take i l). P (l ! i) f)"
    by (rule ball_enumerate)
  also have "\<dots> \<longleftrightarrow> (\<forall>i<length l. \<forall>j<i. P (l ! i) (l ! j))"
    by (simp add: ball_take)
  finally show ?thesis .
qed

lemma is_identity_decomposition_unfold:
  "is_identity_decomposition_into_orthogonal_idempotents l \<longleftrightarrow>
     sum_list l = 1 \<and> (\<forall>e\<in>set l. e * e = e) \<and>
     (\<forall>i<length l. \<forall>j<i. l ! i * l ! j = 0 \<and> l ! j * l ! i = 0)"
  unfolding is_identity_decomposition_into_orthogonal_idempotents_def
  by (simp only: alg_sum_sum_list pairs_below_iff) (simp add: list_all_iff)

lemma is_identity_decomposition_unfold_distinct:
  "is_identity_decomposition_into_orthogonal_idempotents l \<longleftrightarrow>
     sum_list l = 1 \<and> (\<forall>e\<in>set l. e * e = e) \<and>
     (\<forall>i<length l. \<forall>j<length l. i \<noteq> j \<longrightarrow> l ! i * l ! j = 0 \<and> l ! j * l ! i = 0)"
proof -
  have "(\<forall>i<length l. \<forall>j<i. l ! i * l ! j = 0 \<and> l ! j * l ! i = 0) \<longleftrightarrow>
        (\<forall>i<length l. \<forall>j<length l. i \<noteq> j \<longrightarrow> l ! i * l ! j = 0 \<and> l ! j * l ! i = 0)"
    (is "?below \<longleftrightarrow> ?distinct")
  proof
    assume below: ?below
    show ?distinct
    proof (intro allI impI)
      fix i j
      assume i: "i < length l" and j: "j < length l" and ne: "i \<noteq> j"
      show "l ! i * l ! j = 0 \<and> l ! j * l ! i = 0"
      proof (cases "j < i")
        case True
        with below i show ?thesis by blast
      next
        case False
        with ne have "i < j" by simp
        with below j show ?thesis by blast
      qed
    qed
  next
    assume ?distinct
    then show ?below by auto
  qed
  then show ?thesis
    by (simp only: is_identity_decomposition_unfold)
qed

text \<open>
  C2. For every finite list \<open>l\<close> of elements, the check returns true if and only if the sum of
  \<open>l\<close> is the unit, every element of \<open>l\<close> squares to itself, and any two elements at distinct
  positions multiply to zero in both orders. The check is a function of the list alone: it
  returns a truth value and changes nothing.
\<close>

theorem is_identity_decomposition_iff:
  "is_identity_decomposition_into_orthogonal_idempotents l \<longleftrightarrow>
     sum_list l = 1 \<and> (\<forall>e\<in>set l. e * e = e) \<and>
     (\<forall>i<length l. \<forall>j<length l. i \<noteq> j \<longrightarrow> l ! i * l ! j = 0 \<and> l ! j * l ! i = 0)"
  by (rule is_identity_decomposition_unfold_distinct)

theorem is_identity_decomposition_iff_witness:
  "is_identity_decomposition_into_orthogonal_idempotents [kx, ky] \<and>
   sum_list [kx, ky] = 1 \<and> kx * ky = 0 \<and> ky * kx = 0 \<and>
   \<not> is_identity_decomposition_into_orthogonal_idempotents [kx]"
proof -
  have yes: "is_identity_decomposition_into_orthogonal_idempotents [kx, ky]"
    by (simp add: is_identity_decomposition_into_orthogonal_idempotents_def alg_sum_def
        enumerate_simps kron_defs)
  have pairs: "\<forall>i<length [kx, ky]. \<forall>j<length [kx, ky]. i \<noteq> j \<longrightarrow>
            [kx, ky] ! i * [kx, ky] ! j = 0 \<and> [kx, ky] ! j * [kx, ky] ! i = 0"
    and s: "sum_list [kx, ky] = 1"
    using yes is_identity_decomposition_iff [of "[kx, ky]"] by blast+
  from pairs [rule_format, of 0 1] have o: "kx * ky = 0 \<and> ky * kx = 0" by simp
  have "sum_list [kx] \<noteq> 1" by (simp add: kron_defs)
  then have no: "\<not> is_identity_decomposition_into_orthogonal_idempotents [kx]"
    using is_identity_decomposition_iff [of "[kx]"] by blast
  from yes s o no show ?thesis by blast
qed

lemma is_identity_decomposition_sorted_wrt:
  "is_identity_decomposition_into_orthogonal_idempotents l \<longleftrightarrow>
     sum_list l = 1 \<and> (\<forall>e\<in>set l. e * e = e) \<and>
     sorted_wrt (\<lambda>f e. e * f = 0 \<and> f * e = 0) l"
proof -
  have "(\<forall>i<length l. \<forall>j<i. l ! i * l ! j = 0 \<and> l ! j * l ! i = 0) \<longleftrightarrow>
        sorted_wrt (\<lambda>f e. e * f = 0 \<and> f * e = 0) l"
    unfolding sorted_wrt_iff_nth_less by blast
  then show ?thesis
    by (simp only: is_identity_decomposition_unfold)
qed

text \<open>
  C10. On the empty list the check compares the empty sum, the zero, with the unit: it returns
  true if and only if \<open>0 = 1\<close>, hence false in every algebra where \<open>1 \<noteq> 0\<close>. Putting the
  zero element anywhere into a list does not change the answer of the check.
\<close>

theorem is_identity_decomposition_empty_and_zero:
  fixes xs ys :: "'a::{ring,monoid_mult} list"
  shows "(is_identity_decomposition_into_orthogonal_idempotents ([] :: 'a list) \<longleftrightarrow> (0::'a) = 1) \<and>
    (is_identity_decomposition_into_orthogonal_idempotents (xs @ 0 # ys) \<longleftrightarrow>
     is_identity_decomposition_into_orthogonal_idempotents (xs @ ys))"
proof
  show "is_identity_decomposition_into_orthogonal_idempotents ([] :: 'a list) \<longleftrightarrow> (0::'a) = 1"
    by (simp add: is_identity_decomposition_into_orthogonal_idempotents_def alg_sum_def)
next
  show "is_identity_decomposition_into_orthogonal_idempotents (xs @ 0 # ys) \<longleftrightarrow>
     is_identity_decomposition_into_orthogonal_idempotents (xs @ ys)"
    by (auto simp: is_identity_decomposition_sorted_wrt sorted_wrt_append)
qed

theorem is_identity_decomposition_empty_and_zero_witness:
  "\<not> is_identity_decomposition_into_orthogonal_idempotents ([] :: kron list) \<and>
   is_identity_decomposition_into_orthogonal_idempotents ([] :: triv list) \<and>
   is_identity_decomposition_into_orthogonal_idempotents [kx, 0, ky]"
proof -
  have "(0::kron) \<noteq> 1" by (simp add: kron_defs)
  then have k: "\<not> is_identity_decomposition_into_orthogonal_idempotents ([] :: kron list)"
    using is_identity_decomposition_empty_and_zero [where ?'a = kron] by blast
  have "(0::triv) = 1" by (rule triv_eq)
  then have t: "is_identity_decomposition_into_orthogonal_idempotents ([] :: triv list)"
    using is_identity_decomposition_empty_and_zero [where ?'a = triv] by blast
  have "is_identity_decomposition_into_orthogonal_idempotents ([kx] @ [ky])"
    by (simp add: is_identity_decomposition_into_orthogonal_idempotents_def alg_sum_def
        enumerate_simps kron_defs)
  then have "is_identity_decomposition_into_orthogonal_idempotents ([kx] @ 0 # [ky])"
    using is_identity_decomposition_empty_and_zero [of "[kx]" "[ky]"] by blast
  with k t show ?thesis by simp
qed

section \<open>Idempotent lifting\<close>

lemmas kquot_defs = zero_kquot_def one_kquot_def plus_kquot_def uminus_kquot_def
  minus_kquot_def times_kquot_def

lemma defect_step:
  fixes x :: "'a::{ring,monoid_mult}"
  shows "lift_step x * lift_step x - lift_step x =
    ((x * x - x) * (x * x - x)) * (- ((1 + 1 - x * x) * ((1 + x) * (1 + x))))"
  by (simp add: lift_step_def power2_eq_square algebra_simps)

lemma defect_commute:
  fixes x :: "'a::{ring,monoid_mult}"
  shows "((x * x - x) * (x * x - x)) * (- ((1 + 1 - x * x) * ((1 + x) * (1 + x)))) =
     (- ((1 + 1 - x * x) * ((1 + x) * (1 + x)))) * ((x * x - x) * (x * x - x))"
  by (simp add: algebra_simps)


lemma commuting_power_mult:
  fixes u v :: "'a::{ring,monoid_mult}"
  assumes "u * v = v * u"
  shows "(u * v) ^ m = u ^ m * v ^ m"
proof (induction m)
  case 0
  show ?case by simp
next
  case (Suc m)
  have swap: "v * u ^ m = u ^ m * v"
    using assms by (simp add: power_commuting_commutes)
  have "(u * v) ^ Suc m = u * (v * u ^ m) * v ^ m"
    using Suc by (simp add: mult.assoc)
  also have "\<dots> = u * (u ^ m * v) * v ^ m"
    by (simp only: swap)
  also have "\<dots> = u ^ Suc m * v ^ Suc m"
    by (simp add: mult.assoc)
  finally show ?case .
qed

lemma defect_power:
  fixes x :: "'a::{ring,monoid_mult}"
  assumes "(x * x - x) ^ (2 * m) = 0"
  shows "(lift_step x * lift_step x - lift_step x) ^ m = 0"
proof -
  define n where "n = x * x - x"
  define c where "c = - ((1 + 1 - x * x) * ((1 + x) * (1 + x)))"
  have eq: "lift_step x * lift_step x - lift_step x = (n * n) * c"
    unfolding n_def c_def by (rule defect_step)
  have comm: "(n * n) * c = c * (n * n)"
    unfolding n_def c_def by (rule defect_commute)
  have "(lift_step x * lift_step x - lift_step x) ^ m = ((n * n) * c) ^ m"
    by (simp only: eq)
  also have "\<dots> = (n * n) ^ m * c ^ m"
    using comm by (rule commuting_power_mult)
  also have "(n * n) ^ m = n ^ (2 * m)"
    by (simp add: power_mult power2_eq_square)
  also have "\<dots> = 0" using assms by (simp add: n_def)
  finally show ?thesis by simp
qed

lemma lift_step_idempotent:
  fixes x :: "'a::{ring,monoid_mult}"
  assumes "x * x = x"
  shows "lift_step x = x"
proof -
  have "(1 - x) * (1 - x) = 1 - x"
    using assms by (simp add: algebra_simps)
  then show ?thesis
    using assms by (simp add: lift_step_def power2_eq_square)
qed

lemma funpow_idempotent:
  fixes x :: "'a::{ring,monoid_mult}"
  assumes "(x * x - x) ^ (2 ^ k) = 0"
  shows "(lift_step ^^ k) x * (lift_step ^^ k) x = (lift_step ^^ k) x"
  using assms
proof (induction k arbitrary: x)
  case 0
  then show ?case by simp
next
  case (Suc k)
  have "(lift_step x * lift_step x - lift_step x) ^ (2 ^ k) = 0"
    using Suc.prems by (intro defect_power) simp
  then have "(lift_step ^^ k) (lift_step x) * (lift_step ^^ k) (lift_step x) =
      (lift_step ^^ k) (lift_step x)"
    by (rule Suc.IH)
  then show ?case by (simp add: funpow_swap1)
qed

lemma fixed_point_idempotent:
  fixes e :: "'a::{ring,monoid_mult}"
  assumes fp: "lift_step e = e" and nil: "(e * e - e) ^ (2 ^ k) = 0"
  shows "e * e = e"
proof -
  have "(lift_step ^^ j) e = e" for j
    by (induction j) (simp_all add: fp)
  with funpow_idempotent [OF nil] show ?thesis by simp
qed

lemmas idempotent_lift_loop_induct =
  idempotent_lift_loop.raw_induct [where xa = "(x, p)" for x p, unfolded prod.case,
    rotated 1, consumes 1]

lemma loop_returns_fixed_point:
  assumes "idempotent_lift_loop x x_prev = Some e"
    and "\<forall>y. x_prev = Some y \<longrightarrow> x = lift_step y"
  shows "lift_step e = e \<and> (\<exists>k. e = (lift_step ^^ k) x)"
  using assms
proof (induction rule: idempotent_lift_loop_induct)
  case (1 loop x x_prev e)
  show ?case
  proof (cases "Some x \<noteq> x_prev")
    case True
    with 1(2) have "loop (lift_step x) (Some x) = Some e" by simp
    then have "lift_step e = e \<and> (\<exists>k. e = (lift_step ^^ k) (lift_step x))"
      by (rule 1(1)) simp
    then obtain k where "lift_step e = e" "e = (lift_step ^^ k) (lift_step x)" by blast
    then have "e = (lift_step ^^ Suc k) x" by (simp add: funpow_swap1)
    with \<open>lift_step e = e\<close> show ?thesis by blast
  next
    case False
    with 1(2) have "e = x" by simp
    moreover from False 1(3) have "x = lift_step x" by simp
    moreover have "x = (lift_step ^^ 0) x" by simp
    ultimately show ?thesis by metis
  qed
qed

lemma loop_terminates:
  fixes x :: "'a::{ring,monoid_mult}"
  assumes "(x * x - x) ^ (2 ^ k) = 0"
  shows "\<exists>e. idempotent_lift_loop x x_prev = Some e"
  using assms
proof (induction k arbitrary: x x_prev)
  case 0
  then have "x * x = x" by simp
  then have "lift_step x = x" by (rule lift_step_idempotent)
  then have "idempotent_lift_loop x (Some x) = Some x"
    by (subst idempotent_lift_loop.simps) simp
  then show ?case
    using \<open>lift_step x = x\<close> by (subst idempotent_lift_loop.simps) auto
next
  case (Suc k)
  have "(lift_step x * lift_step x - lift_step x) ^ (2 ^ k) = 0"
    using Suc.prems by (intro defect_power) simp
  then have "\<exists>e. idempotent_lift_loop (lift_step x) (Some x) = Some e"
    by (rule Suc.IH)
  then show ?case
    by (subst idempotent_lift_loop.simps) auto
qed


lemma nilpotent_power_two:
  fixes z :: "'a::{ring,monoid_mult}"
  assumes "z ^ j = 0"
  shows "z ^ (2 ^ j) = 0"
proof -
  have "j \<le> 2 ^ j" using less_exp [of j] by simp
  then obtain d where d: "2 ^ j = j + d"
    using le_Suc_ex by blast
  have "z ^ (j + d) = z ^ j * z ^ d" by (rule power_add)
  with assms d show ?thesis by simp
qed

lemma morphism_zero: "algebra_morphism h \<Longrightarrow> h 0 = 0"
proof -
  assume h: "algebra_morphism h"
  then have "h (0 + 0) = h 0 + h 0" unfolding algebra_morphism_def by blast
  then show "h 0 = 0" by simp
qed

lemma morphism_add: "algebra_morphism h \<Longrightarrow> h (u + v) = h u + h v"
  by (simp add: algebra_morphism_def)

lemma morphism_mult: "algebra_morphism h \<Longrightarrow> h (u * v) = h u * h v"
  by (simp add: algebra_morphism_def)

lemma morphism_one: "algebra_morphism h \<Longrightarrow> h 1 = 1"
  by (simp add: algebra_morphism_def)

lemma morphism_diff:
  assumes "algebra_morphism h"
  shows "h (u - v) = h u - h v"
proof -
  have "h (u - v) + h v = h u"
    using morphism_add [OF assms, of "u - v" v] by simp
  then show ?thesis by (simp add: algebra_simps)
qed

lemma morphism_lift_step:
  assumes "algebra_morphism h"
  shows "h (lift_step u) = lift_step (h u)"
  using assms
  by (simp add: lift_step_def power2_eq_square morphism_diff morphism_mult morphism_one)

lemma morphism_funpow_lift_step:
  assumes "algebra_morphism h" and "h u * h u = h u"
  shows "h ((lift_step ^^ k) u) = h u"
proof (induction k)
  case 0
  show ?case by simp
next
  case (Suc k)
  have "h ((lift_step ^^ Suc k) u) = lift_step (h ((lift_step ^^ k) u))"
    using assms(1) by (simp add: morphism_lift_step)
  also have "\<dots> = lift_step (h u)" by (simp only: Suc)
  also have "\<dots> = h u" using assms(2) by (rule lift_step_idempotent)
  finally show ?case .
qed

lemma retract_idempotent_nilpotent:
  assumes hom: "algebra_morphism h" and nil: "nil_kernel h" and idem: "h x * h x = h x"
  shows "\<exists>k. (x * x - x) ^ (2 ^ k) = 0"
proof -
  have "h (x * x - x) = 0"
    using hom idem by (simp add: morphism_diff morphism_mult)
  with nil obtain j where "(x * x - x) ^ j = 0"
    unfolding nil_kernel_def by blast
  then have "(x * x - x) ^ (2 ^ j) = 0" by (rule nilpotent_power_two)
  then show ?thesis ..
qed

lemma idempotent_lift_returns:
  assumes "retract S (to_ambient S arg) * retract S (to_ambient S arg) = retract S (to_ambient S arg)"
  shows "idempotent_lift S arg = Some (Inr e) \<longleftrightarrow>
    idempotent_lift_loop (to_ambient S arg) None = Some e"
  using assms by (auto simp: idempotent_lift_def Let_def)

lemma idempotent_lift_partial:
  assumes hom: "algebra_morphism (retract S)"
    and idem: "retract S (to_ambient S arg) * retract S (to_ambient S arg) = retract S (to_ambient S arg)"
    and ret: "idempotent_lift S arg = Some (Inr e)"
  shows "lift_step e = e \<and> retract S e = retract S (to_ambient S arg) \<and>
    (\<exists>k. e = (lift_step ^^ k) (to_ambient S arg))"
proof -
  from ret idem have "idempotent_lift_loop (to_ambient S arg) None = Some e"
    by (simp add: idempotent_lift_returns)
  then have fp: "lift_step e = e" and "\<exists>k. e = (lift_step ^^ k) (to_ambient S arg)"
    using loop_returns_fixed_point [of "to_ambient S arg" None e] by simp_all
  then obtain k where k: "e = (lift_step ^^ k) (to_ambient S arg)" by blast
  then have "retract S e = retract S (to_ambient S arg)"
    using morphism_funpow_lift_step [OF hom idem] by simp
  with fp k show ?thesis by blast
qed

lemma idempotent_lift_total:
  assumes hom: "algebra_morphism (retract S)" and nil: "nil_kernel (retract S)"
    and idem: "retract S (to_ambient S arg) * retract S (to_ambient S arg) = retract S (to_ambient S arg)"
  shows "\<exists>e. idempotent_lift S arg = Some (Inr e) \<and> e * e = e \<and>
    retract S e = retract S (to_ambient S arg) \<and> (\<exists>k. e = (lift_step ^^ k) (to_ambient S arg))"
proof -
  from retract_idempotent_nilpotent [OF hom nil idem]
  obtain k where "(to_ambient S arg * to_ambient S arg - to_ambient S arg) ^ (2 ^ k) = 0" ..
  then obtain e where "idempotent_lift_loop (to_ambient S arg) None = Some e"
    using loop_terminates by blast
  with idem have ret: "idempotent_lift S arg = Some (Inr e)"
    by (simp add: idempotent_lift_returns)
  from idempotent_lift_partial [OF hom idem ret]
  have fp: "lift_step e = e" and re: "retract S e = retract S (to_ambient S arg)"
    and it: "\<exists>k. e = (lift_step ^^ k) (to_ambient S arg)" by blast+
  from re idem have "retract S e * retract S e = retract S e" by simp
  from retract_idempotent_nilpotent [OF hom nil this]
  obtain j where "(e * e - e) ^ (2 ^ j) = 0" ..
  with fp have "e * e = e" by (rule fixed_point_idempotent)
  with ret re it show ?thesis by blast
qed

text \<open>
  C4. Let the retraction be a morphism of algebras and let the argument retract to an
  idempotent. Then every element \<open>e\<close> that \<^verbatim>\<open>idempotent_lift\<close> returns is a fixed point of
  \<open>x \<mapsto> 1 - (1 - x\<^sup>2)\<^sup>2\<close> and has the same retraction as the argument. When moreover the
  kernel of the retraction is nil, as the radical is, the loop stops, so an element is
  returned, and it is an idempotent of the algebra.
\<close>

theorem idempotent_lift_fixed_point:
  assumes "algebra_morphism (retract S)"
    and "retract S (to_ambient S arg) * retract S (to_ambient S arg) = retract S (to_ambient S arg)"
  shows "(\<forall>e. idempotent_lift S arg = Some (Inr e) \<longrightarrow>
            1 - (1 - e ^ 2) ^ 2 = e \<and> retract S e = retract S (to_ambient S arg)) \<and>
         (nil_kernel (retract S) \<longrightarrow>
            (\<exists>e. idempotent_lift S arg = Some (Inr e) \<and> e * e = e))"
proof (intro conjI allI impI)
  fix e
  assume "idempotent_lift S arg = Some (Inr e)"
  from idempotent_lift_partial [OF assms this]
  show "1 - (1 - e ^ 2) ^ 2 = e" and "retract S e = retract S (to_ambient S arg)"
    by (simp_all add: lift_step_def)
next
  assume "nil_kernel (retract S)"
  from idempotent_lift_total [OF assms(1) this assms(2)]
  show "\<exists>e. idempotent_lift S arg = Some (Inr e) \<and> e * e = e" by blast
qed

lemma kron_retract_morphism: "algebra_morphism (retract kron_quotient)"
  by (simp add: algebra_morphism_def kron_quotient_def kron_defs kquot_defs)

lemma kron_retract_nil: "nil_kernel (retract kron_quotient)"
  unfolding nil_kernel_def
proof (intro allI impI)
  fix z :: kron
  assume "retract kron_quotient z = 0"
  then have "z * z = 0"
    by (cases z) (simp add: kron_quotient_def kron_defs kquot_defs)
  then have "z ^ 2 = 0" by (simp add: power2_eq_square)
  then show "\<exists>k. z ^ k = 0" ..
qed

lemma kron_lift_one_plus_a:
  "idempotent_lift kron_quotient (Ambient (1 + ka)) = Some (Inr 1)"
proof -
  have s1: "lift_step (1 + ka) = 1"
    by (simp add: lift_step_def power2_eq_square kron_defs)
  have s2: "lift_step (1::kron) = 1"
    by (simp add: lift_step_def power2_eq_square)
  have ne: "1 + ka \<noteq> (1::kron)" by (simp add: kron_defs)
  have "idempotent_lift_loop (1::kron) (Some 1) = Some 1"
    by (subst idempotent_lift_loop.simps) simp
  then have "idempotent_lift_loop (1::kron) (Some (1 + ka)) = Some 1"
    using ne s2 by (subst idempotent_lift_loop.simps) simp
  then have "idempotent_lift_loop (1 + ka) None = Some 1"
    using s1 by (subst idempotent_lift_loop.simps) simp
  then show ?thesis
    by (simp add: idempotent_lift_def to_ambient_def kron_quotient_def kron_defs kquot_defs)
qed

theorem idempotent_lift_fixed_point_witness:
  "idempotent_lift kron_quotient (Ambient (1 + ka)) = Some (Inr 1) \<and>
   1 + ka \<noteq> (1::kron) \<and>
   1 - (1 - (1::kron) ^ 2) ^ 2 = 1 \<and>
   retract kron_quotient 1 = retract kron_quotient (1 + ka) \<and>
   (\<exists>e. idempotent_lift kron_quotient (Ambient (1 + ka)) = Some (Inr e) \<and> e * e = e)"
proof -
  have idem: "retract kron_quotient (to_ambient kron_quotient (Ambient (1 + ka))) *
      retract kron_quotient (to_ambient kron_quotient (Ambient (1 + ka))) =
      retract kron_quotient (to_ambient kron_quotient (Ambient (1 + ka)))"
    by (simp add: to_ambient_def kron_quotient_def kron_defs kquot_defs)
  have ne: "1 + ka \<noteq> (1::kron)" by (simp add: kron_defs)
  from idempotent_lift_fixed_point [OF kron_retract_morphism idem] kron_retract_nil
  have fp: "\<forall>e. idempotent_lift kron_quotient (Ambient (1 + ka)) = Some (Inr e) \<longrightarrow>
            1 - (1 - e ^ 2) ^ 2 = e \<and>
            retract kron_quotient e = retract kron_quotient (to_ambient kron_quotient (Ambient (1 + ka)))"
    and ex: "\<exists>e. idempotent_lift kron_quotient (Ambient (1 + ka)) = Some (Inr e) \<and> e * e = e"
    by blast+
  from fp kron_lift_one_plus_a
  have "1 - (1 - (1::kron) ^ 2) ^ 2 = 1 \<and>
      retract kron_quotient 1 = retract kron_quotient (to_ambient kron_quotient (Ambient (1 + ka)))"
    by blast
  with kron_lift_one_plus_a ne ex show ?thesis
    by (simp only: to_ambient_def element.case) blast
qed



section \<open>Orthogonal idempotents, central modulo the radical\<close>

lemma annihilate_lift_step_left:
  fixes e y :: "'a::{ring,monoid_mult}"
  assumes "e * y = 0"
  shows "e * lift_step y = 0"
proof -
  have "e * (1 - y * y) = e - (e * y) * y"
    by (simp add: algebra_simps)
  then have one: "e * (1 - y * y) = e" using assms by simp
  have "e * ((1 - y * y) * (1 - y * y)) = (e * (1 - y * y)) * (1 - y * y)"
    by (simp only: mult.assoc)
  then have sq: "e * ((1 - y * y) * (1 - y * y)) = e" by (simp only: one)
  have "lift_step y = 1 - (1 - y * y) * (1 - y * y)"
    by (simp add: lift_step_def power2_eq_square)
  then have "e * lift_step y = e - e * ((1 - y * y) * (1 - y * y))"
    by (simp only: right_diff_distrib mult_1_right)
  also have "\<dots> = 0" by (simp only: sq diff_self)
  finally show ?thesis .
qed

lemma annihilate_lift_step_right:
  fixes e y :: "'a::{ring,monoid_mult}"
  assumes "y * e = 0"
  shows "lift_step y * e = 0"
proof -
  have "(1 - y * y) * e = e - y * (y * e)"
    by (simp add: algebra_simps)
  then have one: "(1 - y * y) * e = e" using assms by simp
  have "((1 - y * y) * (1 - y * y)) * e = (1 - y * y) * ((1 - y * y) * e)"
    by (simp only: mult.assoc)
  then have sq: "((1 - y * y) * (1 - y * y)) * e = e" by (simp only: one)
  have "lift_step y = 1 - (1 - y * y) * (1 - y * y)"
    by (simp add: lift_step_def power2_eq_square)
  then have "lift_step y * e = e - ((1 - y * y) * (1 - y * y)) * e"
    by (simp only: left_diff_distrib mult_1_left)
  also have "\<dots> = 0" by (simp only: sq diff_self)
  finally show ?thesis .
qed

lemma annihilate_funpow_lift_step:
  fixes e y :: "'a::{ring,monoid_mult}"
  assumes "e * y = 0" and "y * e = 0"
  shows "e * (lift_step ^^ k) y = 0 \<and> (lift_step ^^ k) y * e = 0"
  using assms
  by (induction k) (simp_all add: annihilate_lift_step_left annihilate_lift_step_right)

lemma idempotent_nilpotent_zero:
  fixes z :: "'a::{ring,monoid_mult}"
  assumes "z * z = z" and "z ^ k = 0"
  shows "z = 0"
proof (cases k)
  case 0
  with assms(2) have "(1::'a) = 0" by simp
  then have "z * 1 = z * 0" by simp
  then show ?thesis by simp
next
  case (Suc m)
  have "z ^ Suc n = z" for n
    using assms(1) by (induction n) simp_all
  with assms(2) Suc show ?thesis by simp
qed

lemma idempotent_lift_of_idempotent:
  assumes "x * x = x" and "retract S x * retract S x = retract S x"
  shows "idempotent_lift S (Ambient x) = Some (Inr x)"
proof -
  have s: "lift_step x = x" using assms(1) by (rule lift_step_idempotent)
  have "idempotent_lift_loop x (Some x) = Some x"
    by (subst idempotent_lift_loop.simps) simp
  then have "idempotent_lift_loop x None = Some x"
    using s by (subst idempotent_lift_loop.simps) simp
  then show ?thesis
    using assms(2) by (simp add: idempotent_lift_def to_ambient_def)
qed

lemma orthogonal_idempotents_loop_correct:
  fixes S :: "('a::{ring,monoid_mult}, 'q::{ring,monoid_mult}) semisimple_quotient"
  assumes hom: "algebra_morphism (retract S)" and nil: "nil_kernel (retract S)"
    and sec: "\<forall>g\<in>set gs. retract S (lift S g) = g"
    and gsum: "retract S f + sum_list gs = 1"
    and gorth: "\<forall>g\<in>set gs. retract S f * g = 0 \<and> g * retract S f = 0 \<and> g * g = g"
    and gsorted: "sorted_wrt (\<lambda>f e. e * f = 0 \<and> f * e = 0) gs"
    and fsum: "f = sum_list es"
    and fidem: "f * f = f"
    and es: "\<forall>e\<in>set es. e * e = e \<and> e * f = e \<and> f * e = e"
    and esorted: "sorted_wrt (\<lambda>f e. e * f = 0 \<and> f * e = 0) es"
  shows "\<exists>es'. orthogonal_idempotents_loop S gs (es, f) = Some (Inr es') \<and>
     sum_list es' = 1 \<and> (\<forall>e\<in>set es'. e * e = e) \<and>
     sorted_wrt (\<lambda>f e. e * f = 0 \<and> f * e = 0) es' \<and>
     map (retract S) es' = map (retract S) es @ gs"
  using sec gsum gorth gsorted fsum fidem es esorted
proof (induction gs arbitrary: es f)
  case Nil
  define z where "z = 1 - f"
  have "retract S z = 0"
    using Nil.prems(2) by (simp add: z_def morphism_diff [OF hom] morphism_one [OF hom])
  with nil obtain k where zk: "z ^ k = 0" unfolding nil_kernel_def by blast
  have "z * z = z"
    using Nil.prems(6) by (simp add: z_def algebra_simps)
  then have "z = 0" using zk by (rule idempotent_nilpotent_zero)
  then have "f = 1" by (simp add: z_def)
  with Nil.prems show ?case by simp
next
  case (Cons g gs)
  define p where "p = retract S f"
  define y where "y = (1 - f) * lift S g * (1 - f)"
  have pg: "p * g = 0" "g * p = 0" and gg: "g * g = g"
    using Cons.prems(3) by (simp_all add: p_def)
  have "retract S y = (1 - p) * g * (1 - p)"
    using Cons.prems(1)
    by (simp add: y_def p_def morphism_mult [OF hom] morphism_diff [OF hom] morphism_one [OF hom])
  also have "\<dots> = g"
    using pg by (simp add: algebra_simps)
  finally have ry: "retract S y = g" .
  have "retract S (to_ambient S (Ambient y)) * retract S (to_ambient S (Ambient y)) =
      retract S (to_ambient S (Ambient y))"
    using ry gg by (simp add: to_ambient_def)
  from idempotent_lift_total [OF hom nil this]
  obtain fi k where ret: "idempotent_lift S (Ambient y) = Some (Inr fi)"
    and fifi: "fi * fi = fi" and rfi: "retract S fi = g" and it: "fi = (lift_step ^^ k) y"
    using ry by (auto simp: to_ambient_def)
  have f1: "f * (1 - f) = 0" "(1 - f) * f = 0"
    using Cons.prems(6) by (simp_all add: algebra_simps)
  have "f * y = (f * (1 - f)) * lift S g * (1 - f)"
    by (simp add: y_def mult.assoc)
  then have fy: "f * y = 0" by (simp add: f1)
  have "y * f = (1 - f) * lift S g * ((1 - f) * f)"
    by (simp add: y_def mult.assoc)
  then have yf: "y * f = 0" by (simp add: f1)
  from annihilate_funpow_lift_step [OF fy yf, of k] it
  have ffi: "f * fi = 0" "fi * f = 0" by simp_all
  have efi: "e * fi = 0 \<and> fi * e = 0" if "e \<in> set es" for e
  proof -
    from that Cons.prems(7) have ef: "e * f = e" "f * e = e" by simp_all
    have "e * y = (e * (1 - f)) * lift S g * (1 - f)"
      by (simp add: y_def mult.assoc)
    then have ey: "e * y = 0" using ef by (simp add: algebra_simps)
    have "y * e = (1 - f) * lift S g * ((1 - f) * e)"
      by (simp add: y_def mult.assoc)
    then have ye: "y * e = 0" using ef by (simp add: algebra_simps)
    from annihilate_funpow_lift_step [OF ey ye, of k] it show ?thesis by simp
  qed
  have 1: "\<forall>g\<in>set gs. retract S (lift S g) = g"
    using Cons.prems(1) by simp
  have 2: "retract S (f + fi) + sum_list gs = 1"
    using Cons.prems(2) by (simp add: morphism_add [OF hom] rfi add.assoc)
  have 3: "\<forall>g'\<in>set gs. retract S (f + fi) * g' = 0 \<and> g' * retract S (f + fi) = 0 \<and> g' * g' = g'"
    using Cons.prems(3,4) by (simp add: morphism_add [OF hom] rfi algebra_simps)
  have 4: "sorted_wrt (\<lambda>f e. e * f = 0 \<and> f * e = 0) gs"
    using Cons.prems(4) by simp
  have 5: "f + fi = sum_list (es @ [fi])"
    using Cons.prems(5) by simp
  have 6: "(f + fi) * (f + fi) = f + fi"
    using Cons.prems(6) ffi fifi by (simp add: algebra_simps)
  have 7: "\<forall>e\<in>set (es @ [fi]). e * e = e \<and> e * (f + fi) = e \<and> (f + fi) * e = e"
    using Cons.prems(7) efi ffi fifi by (auto simp: algebra_simps)
  have 8: "sorted_wrt (\<lambda>f e. e * f = 0 \<and> f * e = 0) (es @ [fi])"
    using Cons.prems(8) efi by (simp add: sorted_wrt_append)
  from Cons.IH [OF 1 2 3 4 5 6 7 8]
  obtain es' where "orthogonal_idempotents_loop S gs (es @ [fi], f + fi) = Some (Inr es')"
    and r: "sum_list es' = 1" "\<forall>e\<in>set es'. e * e = e"
      "sorted_wrt (\<lambda>f e. e * f = 0 \<and> f * e = 0) es'"
      "map (retract S) es' = map (retract S) (es @ [fi]) @ gs"
    by blast
  then have "orthogonal_idempotents_loop S (g # gs) (es, f) = Some (Inr es')"
    using ret by (simp add: y_def)
  with r rfi show ?case by simp
qed

lemma orthogonal_idempotents_correct:
  fixes S :: "('a::{ring,monoid_mult}, 'q::{ring,monoid_mult}) semisimple_quotient"
  assumes hom: "algebra_morphism (retract S)" and nil: "nil_kernel (retract S)"
    and sec: "\<forall>g\<in>set (central_orthogonal_idempotents S). retract S (lift S g) = g"
    and dec: "is_identity_decomposition_into_orthogonal_idempotents
      (central_orthogonal_idempotents S)"
  shows "\<exists>es. orthogonal_idempotents_central_mod_radical S = Some (Inr es) \<and>
     is_identity_decomposition_into_orthogonal_idempotents es \<and>
     map (retract S) es = central_orthogonal_idempotents S"
proof -
  let ?gs = "central_orthogonal_idempotents S"
  from dec have d: "sum_list ?gs = 1" "\<forall>g\<in>set ?gs. g * g = g"
      "sorted_wrt (\<lambda>f e. e * f = 0 \<and> f * e = 0) ?gs"
    by (simp_all add: is_identity_decomposition_sorted_wrt)
  have z: "retract S 0 = 0" using hom by (rule morphism_zero)
  have "\<exists>es'. orthogonal_idempotents_loop S ?gs ([], 0) = Some (Inr es') \<and>
     sum_list es' = 1 \<and> (\<forall>e\<in>set es'. e * e = e) \<and>
     sorted_wrt (\<lambda>f e. e * f = 0 \<and> f * e = 0) es' \<and>
     map (retract S) es' = map (retract S) [] @ ?gs"
    using d by (intro orthogonal_idempotents_loop_correct [OF hom nil sec]) (simp_all add: z)
  then show ?thesis
    by (auto simp: orthogonal_idempotents_central_mod_radical_def
        is_identity_decomposition_sorted_wrt)
qed

text \<open>
  C1. Let the retraction be a morphism of algebras with a nil kernel, \<^verbatim>\<open>lift\<close> a section of
  it on the central orthogonal idempotents of the quotient, and let these be a decomposition of
  the identity of the quotient into orthogonal idempotents. Then
  \<^verbatim>\<open>orthogonal_idempotents_central_mod_radical()\<close> returns, and the tuple it returns sums to
  the unit, consists of idempotents, and any two of its entries at distinct positions (so any
  two distinct elements of it) multiply to zero in both orders.
\<close>

theorem orthogonal_idempotents_decomposition:
  fixes S :: "('a::{ring,monoid_mult}, 'q::{ring,monoid_mult}) semisimple_quotient"
  assumes "algebra_morphism (retract S)" and "nil_kernel (retract S)"
    and "\<forall>g\<in>set (central_orthogonal_idempotents S). retract S (lift S g) = g"
    and "is_identity_decomposition_into_orthogonal_idempotents (central_orthogonal_idempotents S)"
  shows "(\<exists>es. orthogonal_idempotents_central_mod_radical S = Some (Inr es)) \<and>
    (\<forall>es. orthogonal_idempotents_central_mod_radical S = Some (Inr es) \<longrightarrow>
       sum_list es = 1 \<and> (\<forall>e\<in>set es. e * e = e) \<and>
       (\<forall>i<length es. \<forall>j<length es. i \<noteq> j \<longrightarrow> es ! i * es ! j = 0 \<and> es ! j * es ! i = 0) \<and>
       (\<forall>e\<in>set es. \<forall>f\<in>set es. e \<noteq> f \<longrightarrow> e * f = 0 \<and> f * e = 0))"
proof -
  from orthogonal_idempotents_correct [OF assms]
  obtain es where ret: "orthogonal_idempotents_central_mod_radical S = Some (Inr es)"
    and dec: "is_identity_decomposition_into_orthogonal_idempotents es"
    by blast
  from dec have a: "sum_list es = 1" "\<forall>e\<in>set es. e * e = e"
    and b: "\<forall>i<length es. \<forall>j<length es. i \<noteq> j \<longrightarrow> es ! i * es ! j = 0 \<and> es ! j * es ! i = 0"
    unfolding is_identity_decomposition_unfold_distinct by blast+
  have c: "\<forall>e\<in>set es. \<forall>f\<in>set es. e \<noteq> f \<longrightarrow> e * f = 0 \<and> f * e = 0"
  proof (intro ballI impI)
    fix e f
    assume "e \<in> set es" "f \<in> set es" "e \<noteq> f"
    then obtain i j where "i < length es" "es ! i = e" "j < length es" "es ! j = f"
      by (auto simp: in_set_conv_nth)
    moreover from this \<open>e \<noteq> f\<close> have "i \<noteq> j" by auto
    ultimately show "e * f = 0 \<and> f * e = 0" using b by blast
  qed
  from ret a b c show ?thesis by auto
qed

lemma kron_orthogonal_idempotents:
  "orthogonal_idempotents_central_mod_radical kron_quotient = Some (Inr [kx, ky])"
proof -
  have a: "idempotent_lift kron_quotient (Ambient kx) = Some (Inr kx)"
    by (rule idempotent_lift_of_idempotent) (simp_all add: kron_quotient_def kron_defs kquot_defs)
  have b: "idempotent_lift kron_quotient (Ambient ky) = Some (Inr ky)"
    by (rule idempotent_lift_of_idempotent) (simp_all add: kron_quotient_def kron_defs kquot_defs)
  have x: "lift kron_quotient (KQuot 1 0) = kx"
    by (simp add: kron_quotient_def kron_defs)
  have y: "(1 - kx) * lift kron_quotient (KQuot 0 1) * (1 - kx) = ky"
    by (simp add: kron_quotient_def kron_defs)
  have "central_orthogonal_idempotents kron_quotient = [KQuot 1 0, KQuot 0 1]"
    by (simp add: kron_quotient_def)
  then show ?thesis
    by (simp add: orthogonal_idempotents_central_mod_radical_def x y a b)
qed

lemma kron_quotient_decomposition:
  "is_identity_decomposition_into_orthogonal_idempotents
     (central_orthogonal_idempotents kron_quotient)"
  by (simp add: is_identity_decomposition_into_orthogonal_idempotents_def alg_sum_def
      enumerate_simps kron_quotient_def kquot_defs)

lemma kron_section:
  "\<forall>g\<in>set (central_orthogonal_idempotents kron_quotient).
     retract kron_quotient (lift kron_quotient g) = g"
  by (simp add: kron_quotient_def)

theorem orthogonal_idempotents_decomposition_witness:
  "orthogonal_idempotents_central_mod_radical kron_quotient = Some (Inr [kx, ky]) \<and>
   sum_list [kx, ky] = 1 \<and> kx * kx = kx \<and> ky * ky = ky \<and> kx * ky = 0 \<and> ky * kx = 0"
proof -
  from orthogonal_idempotents_decomposition
    [OF kron_retract_morphism kron_retract_nil kron_section kron_quotient_decomposition]
    kron_orthogonal_idempotents
  have s: "sum_list [kx, ky] = 1" and i: "\<forall>e\<in>set [kx, ky]. e * e = e"
    and o: "\<forall>i<length [kx, ky]. \<forall>j<length [kx, ky]. i \<noteq> j \<longrightarrow>
      [kx, ky] ! i * [kx, ky] ! j = 0 \<and> [kx, ky] ! j * [kx, ky] ! i = 0"
    by blast+
  from o [rule_format, of 0 1] have "kx * ky = 0 \<and> ky * kx = 0" by simp
  with s i kron_orthogonal_idempotents show ?thesis by simp
qed

section \<open>Peirce decomposition\<close>

lemma dim_span_ranges:
  fixes P :: "'i \<Rightarrow> 'a::ab_group_add \<Rightarrow> 'a" and scale :: "'f::field \<Rightarrow> 'a \<Rightarrow> 'a"
  assumes fd: "finite_dimensional_vector_space scale B"
    and lin: "\<forall>a\<in>set xs. module_hom scale scale (P a)"
    and idem: "\<forall>a\<in>set xs. \<forall>x. P a (P a x) = P a x"
    and orth: "\<forall>a\<in>set xs. \<forall>b\<in>set xs. a \<noteq> b \<longrightarrow> (\<forall>x. P a (P b x) = 0)"
    and dist: "distinct xs"
  shows "vector_space.dim scale (module.span scale (\<Union>a\<in>set xs. range (P a))) =
    (\<Sum>a\<leftarrow>xs. vector_space.dim scale (range (P a)))"
  using lin idem orth dist
proof (induction xs)
  case Nil
  have vs: "vector_space scale"
    using fd by (simp add: finite_dimensional_vector_space_def)
  show ?case
    by (simp add: vector_space.dim_span [OF vs] finite_dimensional_vector_space.dim_empty [OF fd])
next
  case (Cons a xs)
  have vs: "vector_space scale"
    using fd by (simp add: finite_dimensional_vector_space_def)
  then have md: "module scale" by (simp add: module_iff_vector_space)
  define S where "S = range (P a)"
  define U where "U = (\<Union>b\<in>set xs. range (P b))"
  define T where "T = module.span scale U"
  have hom: "module_hom scale scale (P a)" using Cons.prems(1) by simp
  have subS: "module.subspace scale S"
    unfolding S_def using module_hom.subspace_image [OF hom module.subspace_UNIV [OF md]] .
  have subT: "module.subspace scale T"
    unfolding T_def by (rule module.subspace_span [OF md])
  have zeroU: "P a u = 0" if "u \<in> U" for u
  proof -
    from that obtain b x where b: "b \<in> set xs" and u: "u = P b x" by (auto simp: U_def)
    from b Cons.prems(4) have "a \<noteq> b" by auto
    with Cons.prems(3) b show ?thesis by (simp add: u)
  qed
  have zeroT: "P a t = 0" if "t \<in> T" for t
    using module_hom.eq_0_on_span [OF hom, of U t] zeroU that by (simp add: T_def)
  have "S \<inter> T = {0}"
  proof
    show "S \<inter> T \<subseteq> {0}"
    proof
      fix z assume z: "z \<in> S \<inter> T"
      then obtain x where "z = P a x" by (auto simp: S_def)
      with Cons.prems(2) have "P a z = z" by simp
      moreover from z have "P a z = 0" by (simp add: zeroT)
      ultimately show "z \<in> {0}" by simp
    qed
    show "{0} \<subseteq> S \<inter> T"
      using module.subspace_0 [OF md subS] module.subspace_0 [OF md subT] by simp
  qed
  then have dimI: "vector_space.dim scale (S \<inter> T) = 0"
    by (simp add: finite_dimensional_vector_space.dim_singleton [OF fd])
  have "module.span scale (\<Union>b\<in>set (a # xs). range (P b)) = module.span scale (S \<union> U)"
    by (simp add: S_def U_def)
  also have "\<dots> = {x + y | x y. x \<in> module.span scale S \<and> y \<in> module.span scale U}"
    by (rule module.span_Un [OF md])
  also have "module.span scale S = S"
    using subS by (simp add: module.span_eq_iff [OF md])
  finally have sums: "module.span scale (\<Union>b\<in>set (a # xs). range (P b)) =
      {x + y | x y. x \<in> S \<and> y \<in> T}"
    by (simp add: T_def)
  have IH: "vector_space.dim scale T = (\<Sum>b\<leftarrow>xs. vector_space.dim scale (range (P b)))"
    unfolding T_def U_def using Cons.prems by (intro Cons.IH) auto
  from finite_dimensional_vector_space.dim_sums_Int [OF fd subS subT] dimI
  have "vector_space.dim scale {x + y | x y. x \<in> S \<and> y \<in> T} =
      vector_space.dim scale S + vector_space.dim scale T"
    by simp
  with sums IH show ?case by (simp add: S_def)
qed


lemma sum_list_product:
  fixes f :: "'b \<Rightarrow> 'c \<Rightarrow> 'd::monoid_add"
  shows "(\<Sum>a\<leftarrow>List.product xs ys. f (fst a) (snd a)) = (\<Sum>x\<leftarrow>xs. \<Sum>y\<leftarrow>ys. f x y)"
  by (induction xs) (simp_all add: comp_def)

lemma sum_list_nth_upt:
  fixes f :: "'b \<Rightarrow> 'd::monoid_add"
  shows "(\<Sum>i\<leftarrow>[0..<length es]. f (es ! i)) = (\<Sum>e\<leftarrow>es. f e)"
proof -
  have "map (\<lambda>i. f (es ! i)) [0..<length es] = map f (map ((!) es) [0..<length es])"
    by simp
  also have "\<dots> = map f es" by (simp only: map_nth)
  finally show ?thesis by simp
qed

lemma sandwich_sum:
  fixes x :: "'a::{ring,monoid_mult}"
  shows "(\<Sum>e\<leftarrow>es. \<Sum>f\<leftarrow>fs. e * x * f) = sum_list es * x * sum_list fs"
proof -
  have "(\<Sum>f\<leftarrow>fs. e * x * f) = e * x * sum_list fs" for e
    using sum_list_const_mult [of "e * x" "\<lambda>f. f" fs] by simp
  then have "(\<Sum>e\<leftarrow>es. \<Sum>f\<leftarrow>fs. e * x * f) = (\<Sum>e\<leftarrow>es. e * (x * sum_list fs))"
    by (simp add: mult.assoc)
  also have "\<dots> = sum_list es * (x * sum_list fs)"
    using sum_list_mult_const [of "\<lambda>e. e" "x * sum_list fs" es] by simp
  finally show ?thesis by (simp add: mult.assoc)
qed

lemma sandwich_module_hom:
  assumes "algebra_with_basis M"
  shows "module_hom (smult M) (smult M) (\<lambda>x. e * x * f)"
proof -
  from assms have vs: "vector_space (smult M)"
    and l: "\<And>c u v. smult M c (u * v) = smult M c u * v"
    and r: "\<And>c u v. smult M c (u * v) = u * smult M c v"
    unfolding algebra_with_basis_def finite_dimensional_vector_space_def by blast+
  have md: "module (smult M)" using vs by (simp add: module_iff_vector_space)
  have "e * smult M c x * f = smult M c (e * x * f)" for c x
    by (simp add: l [symmetric] r [symmetric])
  with md show ?thesis
    by (simp add: module_hom_iff algebra_simps)
qed

lemma peirce_summand_range:
  assumes "algebra_with_basis M"
  shows "peirce_summand M e f = range (\<lambda>x. e * x * f)"
proof -
  from assms have sp: "module.span (smult M) (set (basis M)) = UNIV"
    by (simp add: algebra_with_basis_def finite_dimensional_vector_space_def
        finite_dimensional_vector_space_axioms_def)
  have "peirce_summand M e f = module.span (smult M) ((\<lambda>x. e * x * f) ` set (basis M))"
    by (simp add: peirce_summand_def submodule_def)
  also have "\<dots> = (\<lambda>x. e * x * f) ` module.span (smult M) (set (basis M))"
    by (rule module_hom.span_image [OF sandwich_module_hom [OF assms]])
  finally show ?thesis by (simp add: sp)
qed

lemma peirce_dimension_sum:
  fixes M :: "('f::field, 'a::{ring,monoid_mult}) with_basis"
  assumes alg: "algebra_with_basis M"
    and dec: "is_identity_decomposition_into_orthogonal_idempotents es"
  shows "(\<Sum>ei\<leftarrow>es. \<Sum>ej\<leftarrow>es. dimension M (peirce_summand M ei ej)) = length (basis M)"
proof -
  define n where "n = length es"
  define xs where "xs = List.product [0..<n] [0..<n]"
  define P where "P = (\<lambda>a x. es ! fst a * x * es ! snd a)"
  from alg have fd: "finite_dimensional_vector_space (smult M) (set (basis M))"
    and dist: "distinct (basis M)"
    by (simp_all add: algebra_with_basis_def)
  then have vs: "vector_space (smult M)"
    by (simp add: finite_dimensional_vector_space_def)
  then have md: "module (smult M)" by (simp add: module_iff_vector_space)
  from dec have s: "sum_list es = 1" and i: "\<And>k. k < n \<Longrightarrow> es ! k * es ! k = es ! k"
    and o: "\<And>k l. k < n \<Longrightarrow> l < n \<Longrightarrow> k \<noteq> l \<Longrightarrow> es ! k * es ! l = 0"
    unfolding is_identity_decomposition_unfold_distinct n_def by simp_all
  have lin: "\<forall>a\<in>set xs. module_hom (smult M) (smult M) (P a)"
    unfolding P_def using sandwich_module_hom [OF alg] by simp
  have idem: "\<forall>a\<in>set xs. \<forall>x. P a (P a x) = P a x"
  proof (intro ballI allI)
    fix a x assume "a \<in> set xs"
    then have "fst a < n" "snd a < n" by (auto simp: xs_def)
    then have "es ! fst a * es ! fst a = es ! fst a" "es ! snd a * es ! snd a = es ! snd a"
      using i by simp_all
    moreover have "P a (P a x) = (es ! fst a * es ! fst a) * x * (es ! snd a * es ! snd a)"
      by (simp add: P_def mult.assoc)
    ultimately show "P a (P a x) = P a x" by (simp add: P_def)
  qed
  have orth: "\<forall>a\<in>set xs. \<forall>b\<in>set xs. a \<noteq> b \<longrightarrow> (\<forall>x. P a (P b x) = 0)"
  proof (intro ballI allI impI)
    fix a b x assume "a \<in> set xs" "b \<in> set xs" "a \<noteq> b"
    then have lt: "fst a < n" "snd a < n" "fst b < n" "snd b < n"
      and ne: "fst a \<noteq> fst b \<or> snd b \<noteq> snd a"
      by (auto simp: xs_def prod_eq_iff)
    have eq: "P a (P b x) = (es ! fst a * es ! fst b) * x * (es ! snd b * es ! snd a)"
      by (simp add: P_def mult.assoc)
    from ne show "P a (P b x) = 0"
    proof
      assume "fst a \<noteq> fst b"
      with lt o have "es ! fst a * es ! fst b = 0" by simp
      with eq show ?thesis by simp
    next
      assume "snd b \<noteq> snd a"
      with lt o have "es ! snd b * es ! snd a = 0" by simp
      with eq show ?thesis by simp
    qed
  qed
  have dxs: "distinct xs" by (simp add: xs_def distinct_product)
  have "x \<in> module.span (smult M) (\<Union>a\<in>set xs. range (P a))" for x
  proof -
    have "(\<Sum>a\<leftarrow>xs. P a x) = (\<Sum>k\<leftarrow>[0..<n]. \<Sum>l\<leftarrow>[0..<n]. es ! k * x * es ! l)"
      unfolding xs_def P_def by (rule sum_list_product)
    also have "\<dots> = (\<Sum>e\<leftarrow>es. \<Sum>l\<leftarrow>[0..<n]. e * x * es ! l)"
      unfolding n_def by (rule sum_list_nth_upt)
    also have "\<dots> = (\<Sum>e\<leftarrow>es. \<Sum>f\<leftarrow>es. e * x * f)"
      unfolding n_def by (simp only: sum_list_nth_upt)
    also have "\<dots> = x" by (simp add: sandwich_sum s)
    finally have "x = (\<Sum>a\<in>set xs. P a x)"
      using dxs by (simp add: sum_list_distinct_conv_sum_set)
    moreover have "(\<Sum>a\<in>set xs. P a x) \<in> module.span (smult M) (\<Union>a\<in>set xs. range (P a))"
      by (intro module.span_sum [OF md] module.span_base [OF md]) auto
    ultimately show ?thesis by simp
  qed
  then have "module.span (smult M) (\<Union>a\<in>set xs. range (P a)) = UNIV" by auto
  with dim_span_ranges [OF fd lin idem orth dxs]
  have "(\<Sum>a\<leftarrow>xs. vector_space.dim (smult M) (range (P a))) = vector_space.dim (smult M) UNIV"
    by simp
  also have "\<dots> = length (basis M)"
    using dist by (simp add: finite_dimensional_vector_space.dim_UNIV [OF fd] distinct_card)
  finally have total: "(\<Sum>a\<leftarrow>xs. vector_space.dim (smult M) (range (P a))) = length (basis M)" .
  have "(\<Sum>a\<leftarrow>xs. vector_space.dim (smult M) (range (P a))) =
      (\<Sum>k\<leftarrow>[0..<n]. \<Sum>l\<leftarrow>[0..<n].
         vector_space.dim (smult M) (range (\<lambda>x. es ! k * x * es ! l)))"
    unfolding xs_def P_def
    by (rule sum_list_product [of "\<lambda>k l. vector_space.dim (smult M) (range (\<lambda>x. es ! k * x * es ! l))"])
  also have "\<dots> = (\<Sum>e\<leftarrow>es. \<Sum>l\<leftarrow>[0..<n]. vector_space.dim (smult M) (range (\<lambda>x. e * x * es ! l)))"
    unfolding n_def
    by (rule sum_list_nth_upt [of "\<lambda>e. \<Sum>l\<leftarrow>[0..<length es].
      vector_space.dim (smult M) (range (\<lambda>x. e * x * es ! l))"])
  also have "\<dots> = (\<Sum>e\<leftarrow>es. \<Sum>f\<leftarrow>es. vector_space.dim (smult M) (range (\<lambda>x. e * x * f)))"
    unfolding n_def
    by (simp only: sum_list_nth_upt [of "\<lambda>f. vector_space.dim (smult M) (range (\<lambda>x. e * x * f))" for e])
  also have "\<dots> = (\<Sum>ei\<leftarrow>es. \<Sum>ej\<leftarrow>es. dimension M (peirce_summand M ei ej))"
    by (simp add: dimension_def peirce_summand_range [OF alg])
  finally show ?thesis using total by simp
qed

lemma kron_vector_space: "vector_space (smult kron_space)"
  by (simp add: vector_space_def kron_space_def kron_defs algebra_simps)

lemma kron_basis_distinct: "distinct [kx, ky, ka, kb]"
  by (simp add: kron_defs)

lemma kron_independent: "\<not> module.dependent (smult kron_space) {kx, ky, ka, kb}"
proof (rule vector_space.independent_if_scalars_zero [OF kron_vector_space])
  show "finite {kx, ky, ka, kb}" by simp
next
  fix f :: "kron \<Rightarrow> rat" and x :: kron
  assume z: "(\<Sum>x\<in>{kx, ky, ka, kb}. smult kron_space (f x) x) = 0" and x: "x \<in> {kx, ky, ka, kb}"
  have "(\<Sum>x\<in>{kx, ky, ka, kb}. smult kron_space (f x) x) = Kron (f kx) (f ky) (f ka) (f kb)"
    using kron_basis_distinct by (simp add: kron_space_def kron_defs)
  with z have "f kx = 0 \<and> f ky = 0 \<and> f ka = 0 \<and> f kb = 0"
    by (simp add: zero_kron_def)
  with x show "f x = 0" by auto
qed

lemma kron_span: "module.span (smult kron_space) {kx, ky, ka, kb} = UNIV"
proof -
  have md: "module (smult kron_space)"
    using kron_vector_space by (simp add: module_iff_vector_space)
  have "u \<in> module.span (smult kron_space) {kx, ky, ka, kb}" for u
  proof -
    have "u = smult kron_space (cx u) kx + (smult kron_space (cy u) ky +
        (smult kron_space (ca u) ka + smult kron_space (cb u) kb))"
      by (cases u) (simp add: kron_space_def kron_defs)
    moreover have "\<dots> \<in> module.span (smult kron_space) {kx, ky, ka, kb}"
      by (intro module.span_add [OF md] module.span_scale [OF md] module.span_base [OF md]) simp_all
    ultimately show ?thesis by simp
  qed
  then show ?thesis by auto
qed

lemma kron_algebra_with_basis: "algebra_with_basis kron_space"
proof -
  have "finite_dimensional_vector_space (smult kron_space) (set (basis kron_space))"
    using kron_vector_space kron_independent kron_span
    by (simp add: finite_dimensional_vector_space_def finite_dimensional_vector_space_axioms_def
        kron_space_def)
  moreover have "distinct (basis kron_space)"
    using kron_basis_distinct by (simp add: kron_space_def)
  moreover have "smult kron_space c (u * v) = smult kron_space c u * v"
    and "smult kron_space c (u * v) = u * smult kron_space c v" for c u v
    by (simp_all add: kron_space_def kron_defs algebra_simps)
  ultimately show ?thesis by (simp add: algebra_with_basis_def)
qed


text \<open>
  C8. Let the algebra be a finite-dimensional vector space with its basis and a bilinear
  product, and let the semisimple quotient be as in C1. Then
  \<^verbatim>\<open>orthogonal_idempotents_central_mod_radical()\<close> returns a family \<open>e\<^sub>1, \<dots>, e\<^sub>n\<close>, and for the family it returns
  the sum over all pairs \<open>(i, j)\<close> of the dimensions of \<^verbatim>\<open>peirce_summand(e_i, e_j)\<close> is the
  dimension of the algebra, the number of its basis elements. With this family
  \<^verbatim>\<open>peirce_decomposition()\<close> passes its check and returns the grid of these summands.
\<close>

theorem peirce_dimensions_sum:
  fixes M :: "('f::field, 'a::{ring,monoid_mult}) with_basis"
    and S :: "('a, 'q::{ring,monoid_mult}) semisimple_quotient"
  assumes "algebra_with_basis M"
    and "algebra_morphism (retract S)" and "nil_kernel (retract S)"
    and "\<forall>g\<in>set (central_orthogonal_idempotents S). retract S (lift S g) = g"
    and "is_identity_decomposition_into_orthogonal_idempotents (central_orthogonal_idempotents S)"
  shows "(\<exists>es. orthogonal_idempotents_central_mod_radical S = Some (Inr es)) \<and>
    (\<forall>es. orthogonal_idempotents_central_mod_radical S = Some (Inr es) \<longrightarrow>
       (\<Sum>ei\<leftarrow>es. \<Sum>ej\<leftarrow>es. dimension M (peirce_summand M ei ej)) = length (basis M) \<and>
       peirce_decomposition M S None True =
         Some (Inr (map (\<lambda>ei. map (\<lambda>ej. peirce_summand M ei ej) es) es)))"
proof -
  from orthogonal_idempotents_correct [OF assms(2-5)]
  obtain es where ret: "orthogonal_idempotents_central_mod_radical S = Some (Inr es)"
    and dec: "is_identity_decomposition_into_orthogonal_idempotents es"
    by blast
  from peirce_dimension_sum [OF assms(1) dec]
  have "(\<Sum>ei\<leftarrow>es. \<Sum>ej\<leftarrow>es. dimension M (peirce_summand M ei ej)) = length (basis M)" .
  moreover from ret dec have "peirce_decomposition M S None True =
         Some (Inr (map (\<lambda>ei. map (\<lambda>ej. peirce_summand M ei ej) es) es))"
    by (simp add: peirce_decomposition_def)
  ultimately show ?thesis using ret by simp
qed

theorem peirce_dimensions_sum_witness:
  "orthogonal_idempotents_central_mod_radical kron_quotient = Some (Inr [kx, ky]) \<and>
   dimension kron_space (peirce_summand kron_space kx kx) +
   dimension kron_space (peirce_summand kron_space kx ky) +
   (dimension kron_space (peirce_summand kron_space ky kx) +
    dimension kron_space (peirce_summand kron_space ky ky)) = 4 \<and>
   peirce_decomposition kron_space kron_quotient None True =
     Some (Inr [[peirce_summand kron_space kx kx, peirce_summand kron_space kx ky],
                [peirce_summand kron_space ky kx, peirce_summand kron_space ky ky]])"
proof -
  from peirce_dimensions_sum [OF kron_algebra_with_basis kron_retract_morphism kron_retract_nil
      kron_section kron_quotient_decomposition] kron_orthogonal_idempotents
  have "(\<Sum>ei\<leftarrow>[kx, ky]. \<Sum>ej\<leftarrow>[kx, ky]. dimension kron_space (peirce_summand kron_space ei ej)) =
      length (basis kron_space) \<and>
    peirce_decomposition kron_space kron_quotient None True =
      Some (Inr (map (\<lambda>ei. map (\<lambda>ej. peirce_summand kron_space ei ej) [kx, ky]) [kx, ky]))"
    by blast
  with kron_orthogonal_idempotents show ?thesis
    by (simp add: kron_space_def)
qed

section \<open>The Cartan invariants matrix\<close>
















section \<open>The inverse of an element\<close>
















lemma ZZ_algebra: "algebra_with_basis (space ZZ_parent)"
proof -
  let ?s = "\<lambda>c u. c * (u::rat)"
  have vs: "vector_space ?s"
    by (simp add: vector_space_def algebra_simps)
  then have md: "module ?s" by (simp add: module_iff_vector_space)
  have "\<not> module.dependent ?s {1}"
    by (simp add: vector_space.dependent_single [OF vs])
  moreover have "module.span ?s {1} = UNIV"
    by (auto simp: module.span_singleton [OF md])
  ultimately show ?thesis
    using vs
    by (simp add: algebra_with_basis_def ZZ_parent_def finite_dimensional_vector_space_def
        finite_dimensional_vector_space_axioms_def)
qed

lemma ZZ_coordinates: "coordinates ZZ_parent"
  by (simp add: coordinates_def ZZ_parent_def from_vector_def)






section \<open>The radical\<close>





lemma radical_basis_not_field:
  assumes "\<not> is_field (base_ring P)"
  shows "radical_basis L P = Some (Inl (NotImplementedError ''the base ring must be a field''))"
  using assms by (simp add: radical_basis_def)

declare radical_loop.simps [code]

text \<open>
  C6 (amended). For every algebra whose base ring is not a field, \<^verbatim>\<open>radical_basis()\<close>
  raises \<^verbatim>\<open>NotImplementedError\<close> with the message \<open>the base ring must be a field\<close>,
  whatever the algebra and the linear algebra library are: the test is the first thing the
  method does. It is not a value error, and the message starts with \<open>the\<close>.
\<close>

theorem radical_basis_rejects_non_field:
  assumes "\<not> is_field (base_ring P)"
  shows "radical_basis L P = Some (Inl (NotImplementedError ''the base ring must be a field''))"
  using assms by (rule radical_basis_not_field)

theorem radical_basis_rejects_non_field_witness:
  "\<not> is_field (base_ring ZZ_parent) \<and>
   radical_basis QQ_library ZZ_parent =
     Some (Inl (NotImplementedError ''the base ring must be a field''))"
proof -
  have n: "\<not> is_field (base_ring ZZ_parent)"
    by (simp add: ZZ_parent_def ZZ_def)
  from radical_basis_rejects_non_field [OF n, of QQ_library] n show ?thesis by simp
qed

theorem radical_basis_value_error_counterexample:
  "radical_basis QQ_library ZZ_parent \<noteq> Some (Inl (ValueError ''base ring must be a field''))"
proof -
  have "\<not> is_field (base_ring ZZ_parent)"
    by (simp add: ZZ_parent_def ZZ_def)
  then have "radical_basis QQ_library ZZ_parent =
      Some (Inl (NotImplementedError ''the base ring must be a field''))"
    by (rule radical_basis_not_field)
  then show ?thesis by simp
qed



lemma c2alg_first_round:
  "spec_G gf2_library 2 1 (map (to_matrix c2alg_parent) (basis (space c2alg_parent))) =
     [[0, 0, 0], [0, 0, 0]]"
  by code_simp

lemma c2alg_second_round:
  "spec_G gf2_library 2 2 (map (to_matrix c2alg_parent) (basis (space c2alg_parent))) =
     [[1, 1, 1], [1, 1, 1]]"
  by code_simp


text \<open>
  The branch of characteristic zero on the example of the docstring: the radical of the path
  algebra of the Kronecker quiver has the basis \<open>(a, b)\<close>.
\<close>

lemma kron_radical_basis:
  "radical_basis QQ_library kron_parent = Some (Inr [ka, kb])"
  by code_simp

text \<open>
  The algebra of dimension zero is outside the statement above: in positive characteristic
  \<^verbatim>\<open>B[0]\<close> raises on its empty list of matrices, where the procedure of the specification
  has no round to make and ends with the empty basis.
\<close>

lemma zero_algebra_radical_basis:
  "radical_basis gf2_library zero_parent = Some (Inl (IndexError ''list index out of range''))"
  "spec_radical_basis_char_p gf2_library zero_parent = Inr []"
  by (simp_all add: radical_basis_def spec_radical_basis_char_p_def zero_parent_def
      GF2_ring_def bind_err_def)

end
